theory Spec2Isabelle
  imports Main "HOL-Library.Word"
begin

section \<open>Data model of the photo streaming server\<close>

text \<open>
  The class \<open>ExampleMentraOSApp\<close> keeps its state in maps keyed by the user id. A JavaScript
  \<open>Map<string, T>\<close> is a partial function from strings; \<open>get\<close> on an absent key gives
  \<open>undefined\<close>, which is \<open>None\<close> here. A \<open>Date\<close> is its time value (epoch milliseconds),
  a \<open>Buffer\<close> is a list of bytes.
\<close>

record PhotoData =
  requestId :: string
  buffer :: "8 word list"
  timestamp :: int
  mimeType :: string
  filename :: string
  photo_size :: int

text \<open>\<open>StoredPhoto\<close> has the fields of \<open>PhotoData\<close> and the user id.\<close>

record StoredPhoto = PhotoData +
  userId :: string

datatype StreamingMode = OFF | PHOTO_SLOW | PHOTO_FAST

datatype ready_state = CONNECTING | OPEN | CLOSING | CLOSED

text \<open>
  A \<open>WebSocket\<close> object of the \<open>ws\<close> library, as far as this program looks at it: its
  \<open>readyState\<close>, whether \<open>send\<close> throws on it, and the messages \<open>send\<close> has handed to it.
  Sockets are objects with identity (\<open>indexOf\<close> compares references), so the registry holds
  references and the objects live in a store.
\<close>

record WebSocket =
  readyState :: ready_state
  sendThrows :: bool
  received :: "string list"

type_synonym ws_ref = nat

text \<open>
  The fields of the class, followed by the two parts of the environment the handlers act on:
  the store of socket objects, and the calls of \<open>session.camera.requestPhoto()\<close> that have been
  issued and have neither resolved nor failed yet (one user id per outstanding call).
\<close>

record app =
  photos :: "string \<rightharpoonup> StoredPhoto"
  latestPhotoTimestamp :: "string \<rightharpoonup> int"
  isStreamingPhotos :: "string \<rightharpoonup> bool"
  nextPhotoTime :: "string \<rightharpoonup> int"
  activeRequests :: "string \<rightharpoonup> bool"
  activeStreams :: "string \<rightharpoonup> ws_ref list"
  streamingMode :: "string \<rightharpoonup> StreamingMode"
  sockets :: "ws_ref \<Rightarrow> WebSocket"
  pendingCaptures :: "string list"

definition new_app :: app where
  "new_app = \<lparr>photos = Map.empty, latestPhotoTimestamp = Map.empty,
     isStreamingPhotos = Map.empty, nextPhotoTime = Map.empty, activeRequests = Map.empty,
     activeStreams = Map.empty, streamingMode = Map.empty,
     sockets = (\<lambda>_. \<lparr>readyState = CONNECTING, sendThrows = False, received = []\<rparr>),
     pendingCaptures = []\<rparr>"

text \<open>JavaScript truthiness of the result of \<open>Map.get\<close> on a map of booleans.\<close>

fun truthy :: "bool option \<Rightarrow> bool" where
  "truthy None = False"
| "truthy (Some b) = b"

section \<open>Library functions the program calls\<close>

text \<open>\<open>String.prototype.includes\<close>: the argument occurs as a contiguous substring.\<close>

fun str_includes :: "string \<Rightarrow> string \<Rightarrow> bool" where
  "str_includes [] sub = (sub = [])"
| "str_includes (c # cs) sub = (take (length sub) (c # cs) = sub \<or> str_includes cs sub)"

text \<open>\<open>Array.prototype.indexOf\<close>, with \<open>None\<close> for \<open>-1\<close>.\<close>

fun indexOf :: "'a list \<Rightarrow> 'a \<Rightarrow> nat option" where
  "indexOf [] x = None"
| "indexOf (y # ys) x = (if y = x then Some 0 else map_option Suc (indexOf ys x))"

text \<open>\<open>clients.splice(index, 1)\<close>: the element at the index is taken out.\<close>

definition splice1 :: "nat \<Rightarrow> 'a list \<Rightarrow> 'a list" where
  "splice1 i xs = take i xs @ drop (Suc i) xs"

text \<open>\<open>Buffer.toString('base64')\<close>: the standard alphabet, padded with \<open>=\<close>.\<close>

definition base64_alphabet :: string where
  "base64_alphabet = ''ABCDEFGHIJKLMNOPQRSTUVWXYZabcdefghijklmnopqrstuvwxyz0123456789+/''"

definition base64_char :: "nat \<Rightarrow> char" where
  "base64_char n = base64_alphabet ! (n mod 64)"

fun base64_nat :: "nat list \<Rightarrow> string" where
  "base64_nat [] = []"
| "base64_nat [a] = [base64_char (a div 4), base64_char ((a mod 4) * 16), CHR ''='', CHR ''='']"
| "base64_nat [a, b] =
     [base64_char (a div 4), base64_char ((a mod 4) * 16 + b div 16),
      base64_char ((b mod 16) * 4), CHR ''='']"
| "base64_nat (a # b # c # rest) =
     [base64_char (a div 4), base64_char ((a mod 4) * 16 + b div 16),
      base64_char ((b mod 16) * 4 + c div 64), base64_char (c mod 64)] @ base64_nat rest"

definition toString_base64 :: "8 word list \<Rightarrow> string" where
  "toString_base64 bytes = base64_nat (map unat bytes)"

text \<open>The escapes of \<open>JSON.stringify\<close> in a string.\<close>

definition hex_digit :: "nat \<Rightarrow> char" where
  "hex_digit n = ''0123456789abcdef'' ! (n mod 16)"

definition quote_char :: "char \<Rightarrow> string" where
  "quote_char c =
     (if c = CHR 0x22 then [CHR 0x5C, CHR 0x22]
      else if c = CHR 0x5C then [CHR 0x5C, CHR 0x5C]
      else if c = CHR 0x08 then [CHR 0x5C, CHR ''b'']
      else if c = CHR 0x0C then [CHR 0x5C, CHR ''f'']
      else if c = CHR 0x0A then [CHR 0x5C, CHR ''n'']
      else if c = CHR 0x0D then [CHR 0x5C, CHR ''r'']
      else if c = CHR 0x09 then [CHR 0x5C, CHR ''t'']
      else if of_char c < (32 :: nat)
        then [CHR 0x5C, CHR ''u'', CHR ''0'', CHR ''0'',
              hex_digit (of_char c div 16), hex_digit (of_char c mod 16)]
      else [c])"

definition quote_string :: "string \<Rightarrow> string" where
  "quote_string s = [CHR 0x22] @ concat (map quote_char s) @ [CHR 0x22]"

text \<open>The decimal digits of a natural number.\<close>

fun decimal_nat :: "nat \<Rightarrow> string" where
  "decimal_nat n =
     (if n < 10 then [''0123456789'' ! n]
      else decimal_nat (n div 10) @ [''0123456789'' ! (n mod 10)])"

declare decimal_nat.simps [simp del]

fun join_comma :: "string list \<Rightarrow> string" where
  "join_comma [] = []"
| "join_comma [s] = s"
| "join_comma (s # t # ss) = s @ '','' @ join_comma (t # ss)"

text \<open>
  \<open>Number::toString\<close> on a Number with an integral value. A Number is a double: an integer
  that is not one stands for the nearest double (ties to the even significand), as the
  conversion to Number gives it. The text has the fewest digits that still read back as the
  same double; up to 21 digits before the point it is written out, with zeros for the places
  the digits do not reach, and from there on in exponent form. A value that rounds to
  \<open>2^1024\<close> or more is infinite.
\<close>

fun bit_length :: "nat \<Rightarrow> nat" where
  "bit_length n = (if n = 0 then 0 else Suc (bit_length (n div 2)))"

declare bit_length.simps [simp del]

definition to_double :: "nat \<Rightarrow> nat" where
  "to_double v =
     (let b = bit_length v in
      if b \<le> 53 then v
      else
        (let e = b - 53; q = v div 2 ^ e; r = v mod 2 ^ e; h = 2 ^ (e - 1)
         in if h < r \<or> (r = h \<and> odd q) then (q + 1) * 2 ^ e else q * 2 ^ e))"

text \<open>
  The search for the digits \<open>s\<close> and their number \<open>k\<close>, for a value \<open>x\<close> of \<open>d\<close> decimal
  digits: the first \<open>k\<close> for which \<open>k\<close> digits followed by zeros read back as \<open>x\<close>; of two
  such the closer one, and the even one when both are as close.
\<close>

function shortest_digits :: "nat \<Rightarrow> nat \<Rightarrow> nat \<Rightarrow> nat \<times> nat" where
  "shortest_digits x d k =
     (if d \<le> k then (x, d)
      else
        (let p = 10 ^ (d - k); lo = x div p; hi = lo + 1;
             lo_ok = (to_double (lo * p) = x);
             hi_ok = (hi < 10 ^ k \<and> to_double (hi * p) = x)
         in if lo_ok \<and> hi_ok then
              (if x - lo * p < hi * p - x then (lo, k)
               else if hi * p - x < x - lo * p then (hi, k)
               else if even lo then (lo, k) else (hi, k))
            else if lo_ok then (lo, k)
            else if hi_ok then (hi, k)
            else shortest_digits x d (Suc k)))"
  by pat_completeness auto
termination
  by (relation "measure (\<lambda>(x, d, k). d - k)") auto

declare shortest_digits.simps [simp del]

definition double_text :: "nat \<Rightarrow> string" where
  "double_text x =
     (let d = length (decimal_nat x);
          (s, k, n) = (if to_double (10 ^ d) = x then (1, 1, d + 1)
                       else (let (s, k) = shortest_digits x d 1 in (s, k, d)))
      in if n \<le> 21 then decimal_nat s @ replicate (n - k) (CHR ''0'')
         else (if k = 1 then decimal_nat s
               else hd (decimal_nat s) # CHR ''.'' # tl (decimal_nat s))
              @ ''e+'' @ decimal_nat (n - 1))"

definition Number_toString :: "int \<Rightarrow> string" where
  "Number_toString i =
     (if 2 ^ 1024 \<le> to_double (nat \<bar>i\<bar>)
      then (if i < 0 then ''-Infinity'' else ''Infinity'')
      else (if i < 0 then ''-'' else []) @ double_text (to_double (nat \<bar>i\<bar>)))"

text \<open>
  \<open>JSON.stringify\<close> on the values this program passes to it: an object whose members are
  strings and numbers with integral values. Member order is insertion order; no white space
  is emitted; a number beyond the largest double is infinite and is written \<open>null\<close>.
\<close>

datatype json = JString string | JNumber int | JObject "(string \<times> json) list"

fun JSON_stringify :: "json \<Rightarrow> string" where
  "JSON_stringify (JString s) = quote_string s"
| "JSON_stringify (JNumber n) =
     (if 2 ^ 1024 \<le> to_double (nat \<bar>n\<bar>) then ''null'' else Number_toString n)"
| "JSON_stringify (JObject members) =
     ''{'' @ join_comma (map (\<lambda>(k, v). quote_string k @ '':'' @ JSON_stringify v) members) @ ''}''"

section \<open>The broadcaster\<close>

text \<open>
  \<open>removeWebSocket\<close>: when the stream has a client array and the socket is found in it, the
  socket is spliced out of that array; otherwise nothing happens.
\<close>

definition removeWebSocket :: "string \<Rightarrow> ws_ref \<Rightarrow> app \<Rightarrow> app" where
  "removeWebSocket streamId ws st =
     (case activeStreams st streamId of
        None \<Rightarrow> st
      | Some clients \<Rightarrow>
          (case indexOf clients ws of
             None \<Rightarrow> st
           | Some index \<Rightarrow>
               st\<lparr>activeStreams := (activeStreams st)(streamId \<mapsto> splice1 index clients)\<rparr>))"

text \<open>
  The handlers of \<open>setupWebSocketServer\<close>: a new connection is pushed on the array of the
  stream \<open>general\<close> (created when absent); the \<open>close\<close> and \<open>error\<close> events of a socket
  remove it.
\<close>

definition on_connection :: "ws_ref \<Rightarrow> app \<Rightarrow> app" where
  "on_connection ws st =
     (let clients = (case activeStreams st ''general'' of None \<Rightarrow> [] | Some cs \<Rightarrow> cs)
      in st\<lparr>activeStreams := (activeStreams st)(''general'' \<mapsto> clients @ [ws])\<rparr>)"

definition on_close :: "ws_ref \<Rightarrow> app \<Rightarrow> app" where
  "on_close ws st = removeWebSocket ''general'' ws st"

definition on_error :: "ws_ref \<Rightarrow> app \<Rightarrow> app" where
  "on_error ws st = removeWebSocket ''general'' ws st"

text \<open>The object handed to \<open>JSON.stringify\<close> in \<open>broadcastPhoto\<close>, and the message.\<close>

definition broadcast_message :: "StoredPhoto \<Rightarrow> string" where
  "broadcast_message photo =
     (let base64Data = toString_base64 (buffer photo)
      in JSON_stringify (JObject
           [(''type'', JString ''photo''),
            (''data'', JString base64Data),
            (''mimeType'', JString (mimeType photo)),
            (''timestamp'', JNumber (timestamp photo)),
            (''size'', JNumber (photo_size photo))]))"

text \<open>\<open>ws.send(message)\<close> on a socket that does not throw: the message goes out on it.\<close>

definition ws_send :: "ws_ref \<Rightarrow> string \<Rightarrow> app \<Rightarrow> app" where
  "ws_send ws message st =
     st\<lparr>sockets := (sockets st)(ws := (sockets st ws)\<lparr>received := received (sockets st ws) @ [message]\<rparr>)\<rparr>"

text \<open>
  The callback of \<open>clients.forEach\<close>: a socket that is not \<open>OPEN\<close> is passed over; on an open
  one \<open>send\<close> is called, and when that throws the socket is removed from the stream.
\<close>

definition broadcast_callback :: "string \<Rightarrow> ws_ref \<Rightarrow> app \<Rightarrow> app" where
  "broadcast_callback message ws st =
     (if readyState (sockets st ws) = OPEN then
        (if sendThrows (sockets st ws) then removeWebSocket ''general'' ws st
         else ws_send ws message st)
      else st)"

text \<open>
  \<open>Array.prototype.forEach\<close> reads the length once and then visits the indices below it in
  turn, calling the callback on an index only when the array still has it. The array is the
  one stored in \<open>activeStreams\<close>, so a splice made by the callback is seen by the loop.
\<close>

definition general_clients :: "app \<Rightarrow> ws_ref list" where
  "general_clients st = (case activeStreams st ''general'' of None \<Rightarrow> [] | Some cs \<Rightarrow> cs)"

function forEach_clients :: "nat \<Rightarrow> nat \<Rightarrow> string \<Rightarrow> app \<Rightarrow> app" where
  "forEach_clients k len message st =
     (if k < len then
        forEach_clients (Suc k) len message
          (if k < length (general_clients st)
           then broadcast_callback message (general_clients st ! k) st else st)
      else st)"
  by pat_completeness auto
termination
  by (relation "measure (\<lambda>(k, len, message, st). len - k)") auto

declare forEach_clients.simps [simp del]

definition broadcastPhoto :: "StoredPhoto \<Rightarrow> app \<Rightarrow> app" where
  "broadcastPhoto photo st =
     forEach_clients 0 (length (general_clients st)) (broadcast_message photo) st"

section \<open>The photo cache\<close>

text \<open>
  \<open>cachePhoto\<close> up to its first \<open>await\<close>: the entry of the user is replaced, the time stamp
  recorded, the photo broadcast. What follows the \<open>await\<close> writes the file and the log only.
\<close>

definition cachePhoto :: "PhotoData \<Rightarrow> string \<Rightarrow> app \<Rightarrow> app" where
  "cachePhoto photo uid st =
     (let cachedPhoto = \<lparr>requestId = requestId photo, buffer = buffer photo,
            timestamp = timestamp photo, mimeType = mimeType photo,
            filename = filename photo, photo_size = photo_size photo, userId = uid\<rparr>;
          st1 = st\<lparr>photos := (photos st)(uid \<mapsto> cachedPhoto)\<rparr>;
          st2 = st1\<lparr>latestPhotoTimestamp := (latestPhotoTimestamp st1)(uid \<mapsto> timestamp cachedPhoto)\<rparr>
      in broadcastPhoto cachedPhoto st2)"

section \<open>The capture coordinator\<close>

text \<open>
  A capture call ends in one of two ways: it resolves with a photo, or it fails with an error
  object, whose \<open>message\<close> may be missing. On such a value no statement of the handler
  throws, so the handler is a function from states to states.
\<close>

record error =
  message :: "string option"

datatype outcome = Resolved PhotoData | Rejected error

text \<open>The test of the \<open>catch\<close> block of \<open>takePhotoAsync\<close>.\<close>

definition is_disconnect :: "error \<Rightarrow> bool" where
  "is_disconnect e =
     (case message e of
        None \<Rightarrow> False
      | Some m \<Rightarrow> m \<noteq> [] \<and> (str_includes m ''WebSocket not connected'' \<or> str_includes m ''CLOSED''))"

text \<open>
  \<open>takePhotoAsync\<close> runs in two parts. The first runs at the call and issues the request.
  The second runs when the request ends: the photo is cached, or the error looked at, and in
  the \<open>finally\<close> block the flag of the user is set to false.
\<close>

definition takePhotoAsync_call :: "string \<Rightarrow> app \<Rightarrow> app" where
  "takePhotoAsync_call uid st = st\<lparr>pendingCaptures := pendingCaptures st @ [uid]\<rparr>"

definition takePhotoAsync_body :: "string \<Rightarrow> outcome \<Rightarrow> app \<Rightarrow> app" where
  "takePhotoAsync_body uid res st =
     (case res of
        Resolved photo \<Rightarrow> cachePhoto photo uid st
      | Rejected e \<Rightarrow>
          (if is_disconnect e
           then st\<lparr>isStreamingPhotos := (isStreamingPhotos st)(uid \<mapsto> False)\<rparr>
           else st))"

definition takePhotoAsync_settle :: "string \<Rightarrow> outcome \<Rightarrow> app \<Rightarrow> app" where
  "takePhotoAsync_settle uid res st =
     (let st1 = takePhotoAsync_body uid res (st\<lparr>pendingCaptures := remove1 uid (pendingCaptures st)\<rparr>)
      in st1\<lparr>activeRequests := (activeRequests st1)(uid \<mapsto> False)\<rparr>)"

text \<open>
  \<open>onSession\<close>: the two assignments made when a session starts. The handlers it registers
  are the functions \<open>onButtonPress\<close> and \<open>interval_tick\<close> below; the session object and the
  session id serve to register them and to write the log, which is not part of the state.
\<close>

definition onSession :: "string \<Rightarrow> int \<Rightarrow> app \<Rightarrow> app" where
  "onSession uid now st =
     (let st1 = st\<lparr>isStreamingPhotos := (isStreamingPhotos st)(uid \<mapsto> False)\<rparr>
      in st1\<lparr>nextPhotoTime := (nextPhotoTime st1)(uid \<mapsto> now)\<rparr>)"

text \<open>
  The button handler registered by \<open>onSession\<close>. A press whose type is not \<open>long\<close> first
  shows a text on the glasses, which touches no field of the class.
\<close>

definition onButtonPress :: "string \<Rightarrow> string \<Rightarrow> app \<Rightarrow> app" where
  "onButtonPress uid pressType st =
     (if pressType = ''long'' then
        st\<lparr>isStreamingPhotos := (isStreamingPhotos st)(uid \<mapsto> \<not> truthy (isStreamingPhotos st uid))\<rparr>
      else if \<not> truthy (activeRequests st uid) then
        takePhotoAsync_call uid (st\<lparr>activeRequests := (activeRequests st)(uid \<mapsto> True)\<rparr>)
      else st)"

text \<open>
  The callback of \<open>setInterval\<close>. \<open>Date.now()\<close> is read twice, in the test and in the
  assignment; the two readings are the arguments \<open>now\<close> and \<open>now'\<close>.
\<close>

definition interval_tick :: "string \<Rightarrow> int \<Rightarrow> int \<Rightarrow> app \<Rightarrow> app" where
  "interval_tick uid now now' st =
     (if truthy (isStreamingPhotos st uid)
         \<and> now > (case nextPhotoTime st uid of None \<Rightarrow> 0 | Some t \<Rightarrow> t) then
        (let st1 = st\<lparr>nextPhotoTime := (nextPhotoTime st)(uid \<mapsto> now' + 2000)\<rparr>
         in if \<not> truthy (activeRequests st1 uid) then
              takePhotoAsync_call uid (st1\<lparr>activeRequests := (activeRequests st1)(uid \<mapsto> True)\<rparr>)
            else st1)
      else st)"

text \<open>\<open>onStop\<close>: one entry is set and two are deleted; the reason goes to the log.\<close>

definition onStop :: "string \<Rightarrow> app \<Rightarrow> app" where
  "onStop uid st =
     (let st1 = st\<lparr>isStreamingPhotos := (isStreamingPhotos st)(uid \<mapsto> False)\<rparr>;
          st2 = st1\<lparr>nextPhotoTime := (nextPhotoTime st1)(uid := None)\<rparr>
      in st2\<lparr>activeRequests := (activeRequests st2)(uid := None)\<rparr>)"

section \<open>The routes\<close>

datatype 'a response = Status401 string | Status404 string | Status200 'a

text \<open>
  \<open>req.authUserId\<close> is a string or undefined; \<open>!userId\<close> holds for undefined and for the
  empty string.
\<close>

definition not_authenticated :: "string option \<Rightarrow> bool" where
  "not_authenticated authUserId = (case authUserId of None \<Rightarrow> True | Some u \<Rightarrow> u = [])"

record latest_photo_json =
  lp_requestId :: string
  lp_timestamp :: int
  lp_hasPhoto :: bool
  lp_isStreaming :: bool

definition api_latest_photo :: "string option \<Rightarrow> app \<Rightarrow> latest_photo_json response" where
  "api_latest_photo authUserId st =
     (if not_authenticated authUserId then Status401 ''Not authenticated''
      else case photos st (the authUserId) of
        None \<Rightarrow> Status404 ''No photo available''
      | Some photo \<Rightarrow> Status200
          \<lparr>lp_requestId = requestId photo, lp_timestamp = timestamp photo, lp_hasPhoto = True,
           lp_isStreaming = truthy (isStreamingPhotos st (the authUserId))\<rparr>)"

text \<open>The photo route answers with the content type and the bytes.\<close>

definition api_photo :: "string option \<Rightarrow> string \<Rightarrow> app \<Rightarrow> (string \<times> 8 word list) response" where
  "api_photo authUserId rid st =
     (if not_authenticated authUserId then Status401 ''Not authenticated''
      else case photos st (the authUserId) of
        None \<Rightarrow> Status404 ''Photo not found''
      | Some photo \<Rightarrow>
          if requestId photo \<noteq> rid then Status404 ''Photo not found''
          else Status200 (mimeType photo, buffer photo))"

record toggle_json =
  tg_isStreaming :: bool
  tg_message :: string

definition api_toggle_streaming :: "string option \<Rightarrow> app \<Rightarrow> toggle_json response \<times> app" where
  "api_toggle_streaming authUserId st =
     (if not_authenticated authUserId then (Status401 ''Not authenticated'', st)
      else
        (let uid = the authUserId;
             currentState = truthy (isStreamingPhotos st uid);
             st1 = st\<lparr>isStreamingPhotos := (isStreamingPhotos st)(uid \<mapsto> \<not> currentState)\<rparr>
         in (Status200 \<lparr>tg_isStreaming = \<not> currentState,
               tg_message = (if \<not> currentState then ''Streaming started'' else ''Streaming stopped'')\<rparr>,
             st1)))"

section \<open>Runs of events\<close>

text \<open>
  The events that reach the program, and the handler each one runs. The end of a capture call
  is an event of a user with an outstanding call; for a user without one it does not occur
  and is passed over.
\<close>

datatype event =
    SessionStart string int
  | ButtonPress string string
  | Tick string int int
  | CaptureEnds string outcome
  | SessionStop string
  | ToggleRequest "string option"
  | Connection ws_ref
  | SocketClose ws_ref

fun step :: "event \<Rightarrow> app \<Rightarrow> app" where
  "step (SessionStart uid now) st = onSession uid now st"
| "step (ButtonPress uid pressType) st = onButtonPress uid pressType st"
| "step (Tick uid now now') st = interval_tick uid now now' st"
| "step (CaptureEnds uid res) st =
     (if uid \<in> set (pendingCaptures st) then takePhotoAsync_settle uid res st else st)"
| "step (SessionStop uid) st = onStop uid st"
| "step (ToggleRequest authUserId) st = snd (api_toggle_streaming authUserId st)"
| "step (Connection ws) st = on_connection ws st"
| "step (SocketClose ws) st = on_close ws st"

fun run :: "event list \<Rightarrow> app \<Rightarrow> app" where
  "run [] st = st"
| "run (e # es) st = run es (step e st)"

section \<open>Predicates on runs\<close>

text \<open>The events that switch the streaming flag of a user: a long press, a toggle request.\<close>

fun toggles_streaming :: "string \<Rightarrow> event \<Rightarrow> bool" where
  "toggles_streaming u (ButtonPress v p) = (v = u \<and> p = ''long'')"
| "toggles_streaming u (ToggleRequest a) = (a = Some u)"
| "toggles_streaming u _ = False"

text \<open>No session of the user is stopped while a capture call of that user is outstanding.\<close>

fun no_stop_in_flight :: "string \<Rightarrow> event list \<Rightarrow> app \<Rightarrow> bool" where
  "no_stop_in_flight u [] st = True"
| "no_stop_in_flight u (e # es) st =
     ((e = SessionStop u \<longrightarrow> u \<notin> set (pendingCaptures st)) \<and> no_stop_in_flight u es (step e st))"

text \<open>
  The flag of a user follows the outstanding calls: at most one call is outstanding, and
  while one is, the flag is true.
\<close>

definition flag_tracks_capture :: "string \<Rightarrow> app \<Rightarrow> bool" where
  "flag_tracks_capture u st =
     (count_list (pendingCaptures st) u \<le> 1 \<and>
      (u \<in> set (pendingCaptures st) \<longrightarrow> activeRequests st u = Some True))"

text \<open>
  The state in which every open socket has been handed the message once for each of its
  occurrences in the list.
\<close>

definition deliver :: "string \<Rightarrow> ws_ref list \<Rightarrow> app \<Rightarrow> app" where
  "deliver msg ws st =
     st\<lparr>sockets := (\<lambda>w. (sockets st w)\<lparr>received := received (sockets st w) @
        replicate (if readyState (sockets st w) = OPEN then count_list ws w else 0) msg\<rparr>)\<rparr>"

text \<open>A string between double quotes, with nothing escaped.\<close>

definition in_quotes :: "string \<Rightarrow> string" where
  "in_quotes s = [CHR 0x22] @ s @ [CHR 0x22]"

text \<open>A socket on which the broadcast calls \<open>send\<close> and \<open>send\<close> throws.\<close>

definition thrower :: "app \<Rightarrow> ws_ref \<Rightarrow> bool" where
  "thrower st w = (readyState (sockets st w) = OPEN \<and> sendThrows (sockets st w))"

section \<open>The wire format of the specification\<close>

text \<open>
  The envelope as the specification gives it: one JSON object with the members \<open>type\<close>,
  \<open>data\<close>, \<open>mimeType\<close>, \<open>timestamp\<close> and \<open>size\<close> in this order, the first the string
  \<open>photo\<close>, the second a base64 string, the third a string, the last two integers. The
  reader below accepts exactly such texts, with optional white space between the tokens, and
  gives the values they denote. It is written from the grammar of JSON and of base64, not
  from the functions that produce the message.
\<close>

definition is_ws :: "char \<Rightarrow> bool" where
  "is_ws c = (c = CHR 0x20 \<or> c = CHR 0x09 \<or> c = CHR 0x0A \<or> c = CHR 0x0D)"

definition skip_ws :: "string \<Rightarrow> string" where
  "skip_ws input = dropWhile is_ws input"

definition token :: "string \<Rightarrow> string \<Rightarrow> string option" where
  "token t input =
     (let r = skip_ws input
      in if take (length t) r = t then Some (drop (length t) r) else None)"

definition hex_value :: "char \<Rightarrow> nat option" where
  "hex_value c =
     (let n = (of_char c :: nat)
      in if 48 \<le> n \<and> n \<le> 57 then Some (n - 48)
         else if 97 \<le> n \<and> n \<le> 102 then Some (n - 87)
         else if 65 \<le> n \<and> n \<le> 70 then Some (n - 55)
         else None)"

definition unescape :: "char \<Rightarrow> char option" where
  "unescape e =
     (if e = CHR 0x22 then Some (CHR 0x22)
      else if e = CHR 0x5C then Some (CHR 0x5C)
      else if e = CHR ''/'' then Some (CHR ''/'')
      else if e = CHR ''b'' then Some (CHR 0x08)
      else if e = CHR ''f'' then Some (CHR 0x0C)
      else if e = CHR ''n'' then Some (CHR 0x0A)
      else if e = CHR ''r'' then Some (CHR 0x0D)
      else if e = CHR ''t'' then Some (CHR 0x09)
      else None)"

text \<open>
  The characters of a string literal after its opening quote, up to the closing one. A
  character is a byte here, so \<open>\\u\<close> escapes are read up to \<open>\\u00ff\<close>.
\<close>

fun read_chars :: "string \<Rightarrow> (string \<times> string) option" where
  "read_chars [] = None"
| "read_chars (c # cs) =
     (if c = CHR 0x22 then Some ([], cs)
      else if c = CHR 0x5C then
        (case cs of
           [] \<Rightarrow> None
         | e # cs1 \<Rightarrow>
             if e = CHR ''u'' then
               (case cs1 of
                  h1 # h2 # h3 # h4 # cs2 \<Rightarrow>
                    (case (hex_value h1, hex_value h2, hex_value h3, hex_value h4) of
                       (Some a, Some b, Some x, Some y) \<Rightarrow>
                         if a = 0 \<and> b = 0
                         then map_option (\<lambda>(s, r). (char_of (16 * x + y) # s, r)) (read_chars cs2)
                         else None
                     | _ \<Rightarrow> None)
                | _ \<Rightarrow> None)
             else
               (case unescape e of
                  None \<Rightarrow> None
                | Some u \<Rightarrow> map_option (\<lambda>(s, r). (u # s, r)) (read_chars cs1)))
      else if of_char c < (32 :: nat) then None
      else map_option (\<lambda>(s, r). (c # s, r)) (read_chars cs))"

definition read_string :: "string \<Rightarrow> (string \<times> string) option" where
  "read_string input =
     (case input of [] \<Rightarrow> None | c # cs \<Rightarrow> if c = CHR 0x22 then read_chars cs else None)"

text \<open>
  An integer: an optional minus sign and decimal digits without a leading zero, not
  followed by a fraction or an exponent.
\<close>

definition is_digit :: "char \<Rightarrow> bool" where
  "is_digit c = (48 \<le> (of_char c :: nat) \<and> (of_char c :: nat) \<le> 57)"

definition digits_value :: "string \<Rightarrow> nat" where
  "digits_value ds = foldl (\<lambda>a c. 10 * a + (of_char c - 48)) 0 ds"

definition read_nat :: "string \<Rightarrow> (nat \<times> string) option" where
  "read_nat input =
     (let ds = takeWhile is_digit input; r = dropWhile is_digit input
      in if ds = [] \<or> (1 < length ds \<and> hd ds = CHR ''0'') then None
         else if r \<noteq> [] \<and> (hd r = CHR ''.'' \<or> hd r = CHR ''e'' \<or> hd r = CHR ''E'') then None
         else Some (digits_value ds, r))"

definition read_integer :: "string \<Rightarrow> (int \<times> string) option" where
  "read_integer input =
     (if input \<noteq> [] \<and> hd input = CHR ''-''
      then map_option (\<lambda>(n, r). (- int n, r)) (read_nat (tl input))
      else map_option (\<lambda>(n, r). (int n, r)) (read_nat input))"

text \<open>
  Base64 with the standard alphabet (\<open>A\<close> to \<open>Z\<close>, \<open>a\<close> to \<open>z\<close>, \<open>0\<close> to \<open>9\<close>, \<open>+\<close>,
  \<open>/\<close>), four characters for three bytes, the last group padded with \<open>=\<close>.
\<close>

definition base64_value :: "char \<Rightarrow> nat option" where
  "base64_value c =
     (let n = (of_char c :: nat)
      in if 65 \<le> n \<and> n \<le> 90 then Some (n - 65)
         else if 97 \<le> n \<and> n \<le> 122 then Some (n - 71)
         else if 48 \<le> n \<and> n \<le> 57 then Some (n + 4)
         else if c = CHR ''+'' then Some 62
         else if c = CHR ''/'' then Some 63
         else None)"

fun base64_decode_nat :: "string \<Rightarrow> nat list option" where
  "base64_decode_nat [] = Some []"
| "base64_decode_nat (c1 # c2 # c3 # c4 # rest) =
     (case (base64_value c1, base64_value c2) of
        (Some v1, Some v2) \<Rightarrow>
          (if c4 = CHR ''='' then
             (if rest \<noteq> [] then None
              else if c3 = CHR ''='' then
                (if v2 mod 16 = 0 then Some [v1 * 4 + v2 div 16] else None)
              else
                (case base64_value c3 of
                   Some v3 \<Rightarrow>
                     if v3 mod 4 = 0
                     then Some [v1 * 4 + v2 div 16, (v2 mod 16) * 16 + v3 div 4] else None
                 | None \<Rightarrow> None))
           else
             (case (base64_value c3, base64_value c4) of
                (Some v3, Some v4) \<Rightarrow>
                  map_option
                    (\<lambda>bs. [v1 * 4 + v2 div 16, (v2 mod 16) * 16 + v3 div 4, (v3 mod 4) * 64 + v4] @ bs)
                    (base64_decode_nat rest)
              | _ \<Rightarrow> None))
      | _ \<Rightarrow> None)"
| "base64_decode_nat _ = None"

definition base64_decode :: "string \<Rightarrow> 8 word list option" where
  "base64_decode s = map_option (map of_nat) (base64_decode_nat s)"

record envelope =
  env_type :: string
  env_data :: "8 word list"
  env_mimeType :: string
  env_timestamp :: int
  env_size :: int

definition member_key :: "string \<Rightarrow> string \<Rightarrow> string option" where
  "member_key k input = Option.bind (token (in_quotes k) input) (token '':'')"

definition read_envelope :: "string \<Rightarrow> envelope option" where
  "read_envelope input =
     Option.bind (token ''{'' input) (\<lambda>r.
     Option.bind (member_key ''type'' r) (\<lambda>r.
     Option.bind (read_string (skip_ws r)) (\<lambda>(ty, r).
     Option.bind (token '','' r) (\<lambda>r.
     Option.bind (member_key ''data'' r) (\<lambda>r.
     Option.bind (read_string (skip_ws r)) (\<lambda>(dt, r).
     Option.bind (base64_decode dt) (\<lambda>bytes.
     Option.bind (token '','' r) (\<lambda>r.
     Option.bind (member_key ''mimeType'' r) (\<lambda>r.
     Option.bind (read_string (skip_ws r)) (\<lambda>(mt, r).
     Option.bind (token '','' r) (\<lambda>r.
     Option.bind (member_key ''timestamp'' r) (\<lambda>r.
     Option.bind (read_integer (skip_ws r)) (\<lambda>(ts, r).
     Option.bind (token '','' r) (\<lambda>r.
     Option.bind (member_key ''size'' r) (\<lambda>r.
     Option.bind (read_integer (skip_ws r)) (\<lambda>(sz, r).
     Option.bind (token ''}'' r) (\<lambda>r.
       if skip_ws r = [] \<and> ty = ''photo''
       then Some \<lparr>env_type = ty, env_data = bytes, env_mimeType = mt,
                  env_timestamp = ts, env_size = sz\<rparr>
       else None)))))))))))))))))"

section \<open>Sample values\<close>

definition ex_photo1 :: PhotoData where
  "ex_photo1 = \<lparr>requestId = ''req-1'', buffer = [77, 97, 110], timestamp = 1700000000000,
     mimeType = ''image/jpeg'', filename = ''a.jpg'', photo_size = 3\<rparr>"

definition ex_photo2 :: PhotoData where
  "ex_photo2 = \<lparr>requestId = ''req-2'', buffer = [255, 216], timestamp = 1700000002000,
     mimeType = ''image/png'', filename = ''b.png'', photo_size = 2\<rparr>"

definition ex_timeout :: error where
  "ex_timeout = \<lparr>message = Some ''Photo request timed out''\<rparr>"

definition ex_disconnect :: error where
  "ex_disconnect = \<lparr>message = Some ''Error: WebSocket not connected (current state: CLOSED)''\<rparr>"

text \<open>A user who has switched streaming on and has a capture in flight.\<close>

definition ex_streaming_in_flight :: app where
  "ex_streaming_in_flight =
     run [SessionStart ''u'' 0, ButtonPress ''u'' ''long'', ButtonPress ''u'' ''short''] new_app"

section \<open>Sample sockets and registries\<close>

definition ex_stored1 :: StoredPhoto where
  "ex_stored1 = \<lparr>requestId = ''req-1'', buffer = [77, 97, 110], timestamp = 1700000000000,
     mimeType = ''image/jpeg'', filename = ''a.jpg'', photo_size = 3, userId = ''u''\<rparr>"

text \<open>
  A photo whose MIME type holds a quote, a backslash, a line feed and a control character,
  with a time before 1970 and a single byte.
\<close>

definition ex_stored2 :: StoredPhoto where
  "ex_stored2 = \<lparr>requestId = ''req-2'', buffer = [255], timestamp = - 86400000,
     mimeType = [CHR ''a'', CHR 0x22, CHR 0x5C, CHR 0x0A, CHR 0x01], filename = ''b.bin'',
     photo_size = 1, userId = ''u''\<rparr>"

definition ex_open_socket :: WebSocket where
  "ex_open_socket = \<lparr>readyState = OPEN, sendThrows = False, received = []\<rparr>"

text \<open>Three clients, the first one closed.\<close>

definition ex_closed_client :: app where
  "ex_closed_client = new_app\<lparr>activeStreams := [''general'' \<mapsto> [1, 2, 3]],
     sockets := (\<lambda>_. ex_open_socket)(1 := ex_open_socket\<lparr>readyState := CLOSED\<rparr>)\<rparr>"

text \<open>Four open clients; \<open>send\<close> throws on the second.\<close>

definition ex_failing_client :: app where
  "ex_failing_client = new_app\<lparr>activeStreams := [''general'' \<mapsto> [1, 2, 3, 4]],
     sockets := (\<lambda>_. ex_open_socket)(2 := ex_open_socket\<lparr>sendThrows := True\<rparr>)\<rparr>"

section \<open>What the broadcast leaves alone\<close>

text \<open>
  The broadcast writes the client array and the sockets and nothing else; so does every step
  of its loop.
\<close>

lemma removeWebSocket_frame:
  "\<exists>as. removeWebSocket sid ws st = st\<lparr>activeStreams := as\<rparr>"
proof (cases "activeStreams st sid")
  case None
  then have "removeWebSocket sid ws st = st\<lparr>activeStreams := activeStreams st\<rparr>"
    by (simp add: removeWebSocket_def)
  then show ?thesis by blast
next
  case (Some clients)
  show ?thesis
  proof (cases "indexOf clients ws")
    case None
    with Some have "removeWebSocket sid ws st = st\<lparr>activeStreams := activeStreams st\<rparr>"
      by (simp add: removeWebSocket_def)
    then show ?thesis by blast
  next
    case (Some i)
    with \<open>activeStreams st sid = Some clients\<close> show ?thesis
      by (auto simp: removeWebSocket_def)
  qed
qed

lemma broadcast_callback_frame:
  "\<exists>as sk. broadcast_callback m ws st = st\<lparr>activeStreams := as, sockets := sk\<rparr>"
proof -
  obtain as where r: "removeWebSocket ''general'' ws st = st\<lparr>activeStreams := as\<rparr>"
    using removeWebSocket_frame by blast
  have a: "st\<lparr>activeStreams := as\<rparr> = st\<lparr>activeStreams := as, sockets := sockets st\<rparr>" by simp
  have b: "ws_send ws m st = st\<lparr>activeStreams := activeStreams st, sockets := sockets (ws_send ws m st)\<rparr>"
    by (simp add: ws_send_def)
  have c: "st = st\<lparr>activeStreams := activeStreams st, sockets := sockets st\<rparr>" by simp
  show ?thesis
    unfolding broadcast_callback_def using r a b c by (metis (full_types))
qed

lemma forEach_clients_frame:
  "\<exists>as sk. forEach_clients k len m st = st\<lparr>activeStreams := as, sockets := sk\<rparr>"
proof (induction k len m st rule: forEach_clients.induct)
  case (1 k len m st)
  show ?case
  proof (cases "k < len")
    case False
    then have "forEach_clients k len m st = st\<lparr>activeStreams := activeStreams st, sockets := sockets st\<rparr>"
      by (simp add: forEach_clients.simps)
    then show ?thesis by blast
  next
    case True
    define st1 where "st1 = (if k < length (general_clients st)
           then broadcast_callback m (general_clients st ! k) st else st)"
    obtain as1 sk1 where s1: "st1 = st\<lparr>activeStreams := as1, sockets := sk1\<rparr>"
    proof (cases "k < length (general_clients st)")
      case True
      then show ?thesis using broadcast_callback_frame[of m "general_clients st ! k" st] that
        by (auto simp: st1_def)
    next
      case False
      then have "st1 = st\<lparr>activeStreams := activeStreams st, sockets := sockets st\<rparr>"
        by (simp add: st1_def)
      then show ?thesis using that by blast
    qed
    from "1.IH"[OF True] obtain as2 sk2 where
      s2: "forEach_clients (Suc k) len m st1 = st1\<lparr>activeStreams := as2, sockets := sk2\<rparr>"
      unfolding st1_def by blast
    have "forEach_clients k len m st = forEach_clients (Suc k) len m st1"
      using True by (subst forEach_clients.simps) (simp add: st1_def)
    also have "\<dots> = st\<lparr>activeStreams := as2, sockets := sk2\<rparr>"
      using s1 s2 by simp
    finally show ?thesis by blast
  qed
qed

lemma broadcastPhoto_frame:
  "\<exists>as sk. broadcastPhoto photo st = st\<lparr>activeStreams := as, sockets := sk\<rparr>"
  unfolding broadcastPhoto_def by (rule forEach_clients_frame)

lemma broadcastPhoto_fields [simp]:
  "photos (broadcastPhoto photo st) = photos st"
  "latestPhotoTimestamp (broadcastPhoto photo st) = latestPhotoTimestamp st"
  "isStreamingPhotos (broadcastPhoto photo st) = isStreamingPhotos st"
  "nextPhotoTime (broadcastPhoto photo st) = nextPhotoTime st"
  "activeRequests (broadcastPhoto photo st) = activeRequests st"
  "streamingMode (broadcastPhoto photo st) = streamingMode st"
  "pendingCaptures (broadcastPhoto photo st) = pendingCaptures st"
proof -
  obtain as sk where "broadcastPhoto photo st = st\<lparr>activeStreams := as, sockets := sk\<rparr>"
    using broadcastPhoto_frame by blast
  then show
    "photos (broadcastPhoto photo st) = photos st"
    "latestPhotoTimestamp (broadcastPhoto photo st) = latestPhotoTimestamp st"
    "isStreamingPhotos (broadcastPhoto photo st) = isStreamingPhotos st"
    "nextPhotoTime (broadcastPhoto photo st) = nextPhotoTime st"
    "activeRequests (broadcastPhoto photo st) = activeRequests st"
    "streamingMode (broadcastPhoto photo st) = streamingMode st"
    "pendingCaptures (broadcastPhoto photo st) = pendingCaptures st"
    by simp_all
qed

lemma cachePhoto_fields [simp]:
  "photos (cachePhoto photo uid st) = (photos st)(uid \<mapsto>
      \<lparr>requestId = requestId photo, buffer = buffer photo,
       timestamp = timestamp photo, mimeType = mimeType photo,
       filename = filename photo, photo_size = photo_size photo, userId = uid\<rparr>)"
  "latestPhotoTimestamp (cachePhoto photo uid st) = (latestPhotoTimestamp st)(uid \<mapsto> timestamp photo)"
  "isStreamingPhotos (cachePhoto photo uid st) = isStreamingPhotos st"
  "nextPhotoTime (cachePhoto photo uid st) = nextPhotoTime st"
  "activeRequests (cachePhoto photo uid st) = activeRequests st"
  "streamingMode (cachePhoto photo uid st) = streamingMode st"
  "pendingCaptures (cachePhoto photo uid st) = pendingCaptures st"
  by (simp_all add: cachePhoto_def Let_def)

lemmas handler_defs = onSession_def onButtonPress_def interval_tick_def onStop_def
  takePhotoAsync_call_def takePhotoAsync_settle_def takePhotoAsync_body_def
  api_toggle_streaming_def not_authenticated_def

lemma ex_streaming_in_flight_eq:
  "ex_streaming_in_flight = new_app\<lparr>isStreamingPhotos := [''u'' \<mapsto> True],
      nextPhotoTime := [''u'' \<mapsto> 0], activeRequests := [''u'' \<mapsto> True],
      pendingCaptures := [''u'']\<rparr>"
  by (simp add: ex_streaming_in_flight_def handler_defs new_app_def Let_def)

section \<open>The capture coordinator: single handlers\<close>

text \<open>
  Claim C1. Whichever way a capture call ends, with a photo or with an error, the handler that
  runs at its end leaves the flag of the user in \<open>activeRequests\<close> at false; in particular
  this holds for the end of a call that has just been issued.
\<close>

theorem in_flight_flag_cleared:
  "activeRequests (takePhotoAsync_settle uid res st) uid = Some False \<and>
   \<not> truthy (activeRequests (takePhotoAsync_settle uid res st) uid) \<and>
   activeRequests (step (CaptureEnds uid res) (takePhotoAsync_call uid st)) uid = Some False"
  by (simp add: takePhotoAsync_settle_def takePhotoAsync_call_def Let_def)

theorem in_flight_flag_cleared_witness:
  "activeRequests ex_streaming_in_flight ''u'' = Some True \<and>
   activeRequests (takePhotoAsync_settle ''u'' (Resolved ex_photo1) ex_streaming_in_flight) ''u''
     = Some False \<and>
   activeRequests (takePhotoAsync_settle ''u'' (Rejected ex_timeout) ex_streaming_in_flight) ''u''
     = Some False"
  using in_flight_flag_cleared [of "''u''" "Resolved ex_photo1" ex_streaming_in_flight]
        in_flight_flag_cleared [of "''u''" "Rejected ex_timeout" ex_streaming_in_flight]
  by (simp add: ex_streaming_in_flight_eq)

text \<open>
  Claim C3 as stated fails: for a user with streaming on, the interval elapsed and a capture
  in flight, the tick moves \<open>nextPhotoTime\<close> from 0 to 7000.
\<close>

theorem tick_in_flight_counterexample:
  "truthy (activeRequests ex_streaming_in_flight ''u'') \<and>
   nextPhotoTime ex_streaming_in_flight ''u'' = Some 0 \<and>
   nextPhotoTime (interval_tick ''u'' 5000 5000 ex_streaming_in_flight) ''u'' = Some 7000"
  by (simp add: ex_streaming_in_flight_eq interval_tick_def Let_def)

text \<open>
  Claim C3, amended. A tick advances \<open>nextPhotoTime\<close> of the user to the clock reading plus
  2000 exactly when streaming is on and the clock is past the stored time (0 when absent); it
  sets the flag and issues one capture exactly when, in addition, no capture is in flight.
  A tick that arrives while a capture is in flight issues nothing, but it still advances
  \<open>nextPhotoTime\<close> when the first two conditions hold. Nothing else changes.
\<close>

theorem tick_decision:
  "nextPhotoTime (interval_tick uid now now' st) =
     (if truthy (isStreamingPhotos st uid)
         \<and> now > (case nextPhotoTime st uid of None \<Rightarrow> 0 | Some t \<Rightarrow> t)
      then (nextPhotoTime st)(uid \<mapsto> now' + 2000) else nextPhotoTime st) \<and>
   pendingCaptures (interval_tick uid now now' st) =
     pendingCaptures st @
       (if truthy (isStreamingPhotos st uid)
           \<and> now > (case nextPhotoTime st uid of None \<Rightarrow> 0 | Some t \<Rightarrow> t)
           \<and> \<not> truthy (activeRequests st uid)
        then [uid] else []) \<and>
   activeRequests (interval_tick uid now now' st) =
     (if truthy (isStreamingPhotos st uid)
         \<and> now > (case nextPhotoTime st uid of None \<Rightarrow> 0 | Some t \<Rightarrow> t)
         \<and> \<not> truthy (activeRequests st uid)
      then (activeRequests st)(uid \<mapsto> True) else activeRequests st) \<and>
   interval_tick uid now now' st =
     st\<lparr>nextPhotoTime := nextPhotoTime (interval_tick uid now now' st),
        activeRequests := activeRequests (interval_tick uid now now' st),
        pendingCaptures := pendingCaptures (interval_tick uid now now' st)\<rparr>"
  by (simp add: interval_tick_def takePhotoAsync_call_def Let_def)

theorem tick_decision_witness:
  "truthy (isStreamingPhotos (onButtonPress ''u'' ''long'' (onSession ''u'' 0 new_app)) ''u'') \<and>
   nextPhotoTime (onButtonPress ''u'' ''long'' (onSession ''u'' 0 new_app)) ''u'' = Some 0 \<and>
   \<not> truthy (activeRequests (onButtonPress ''u'' ''long'' (onSession ''u'' 0 new_app)) ''u'') \<and>
   pendingCaptures (interval_tick ''u'' 5000 5001
      (onButtonPress ''u'' ''long'' (onSession ''u'' 0 new_app))) = [''u''] \<and>
   nextPhotoTime (interval_tick ''u'' 5000 5001
      (onButtonPress ''u'' ''long'' (onSession ''u'' 0 new_app))) ''u'' = Some 7001 \<and>
   pendingCaptures (interval_tick ''u'' 5000 5001 ex_streaming_in_flight)
     = pendingCaptures ex_streaming_in_flight"
  using tick_decision [of "''u''" 5000 5001 "onButtonPress ''u'' ''long'' (onSession ''u'' 0 new_app)"]
        tick_decision [of "''u''" 5000 5001 ex_streaming_in_flight]
  by (simp add: onButtonPress_def onSession_def new_app_def Let_def ex_streaming_in_flight_eq)

text \<open>
  Claim C4 as stated fails: after \<open>onStop\<close> the user still has an entry in
  \<open>isStreamingPhotos\<close>, and the end of a capture that was in flight at the stop puts an
  entry for the user back into \<open>activeRequests\<close>.
\<close>

theorem stop_keeps_entries_counterexample:
  "isStreamingPhotos (onStop ''u'' ex_streaming_in_flight) ''u'' = Some False \<and>
   activeRequests (onStop ''u'' ex_streaming_in_flight) ''u'' = None \<and>
   activeRequests (takePhotoAsync_settle ''u'' (Rejected ex_timeout)
      (onStop ''u'' ex_streaming_in_flight)) ''u'' = Some False"
  by (simp add: ex_streaming_in_flight_eq handler_defs Let_def ex_timeout_def is_disconnect_def)

text \<open>
  Claim C4, amended. \<open>onStop\<close> sets the streaming flag of the user to false and keeps that
  entry; it removes the entries of the user in \<open>nextPhotoTime\<close> and \<open>activeRequests\<close>.
  The end of a capture that was in flight at the stop leaves streaming off and
  \<open>nextPhotoTime\<close> without an entry for the user, and stores false for the user in
  \<open>activeRequests\<close>, which reads as no capture in flight. When the capture ended with a
  photo, the photo is cached for the user all the same.
\<close>

theorem stop_then_completion:
  "isStreamingPhotos (onStop uid st) = (isStreamingPhotos st)(uid \<mapsto> False) \<and>
   nextPhotoTime (onStop uid st) = (nextPhotoTime st)(uid := None) \<and>
   activeRequests (onStop uid st) = (activeRequests st)(uid := None) \<and>
   isStreamingPhotos (takePhotoAsync_settle uid res (onStop uid st)) uid = Some False \<and>
   nextPhotoTime (takePhotoAsync_settle uid res (onStop uid st)) uid = None \<and>
   activeRequests (takePhotoAsync_settle uid res (onStop uid st)) uid = Some False \<and>
   photos (takePhotoAsync_settle uid (Resolved photo) (onStop uid st)) uid =
     Some \<lparr>requestId = requestId photo, buffer = buffer photo, timestamp = timestamp photo,
           mimeType = mimeType photo, filename = filename photo,
           photo_size = photo_size photo, userId = uid\<rparr> \<and>
   photos (takePhotoAsync_settle uid (Rejected e) (onStop uid st)) = photos st"
  by (cases res) (simp_all add: handler_defs Let_def)

theorem stop_then_completion_witness:
  "nextPhotoTime ex_streaming_in_flight ''u'' = Some 0 \<and>
   activeRequests ex_streaming_in_flight ''u'' = Some True \<and>
   nextPhotoTime (onStop ''u'' ex_streaming_in_flight) ''u'' = None \<and>
   activeRequests (onStop ''u'' ex_streaming_in_flight) ''u'' = None \<and>
   isStreamingPhotos (takePhotoAsync_settle ''u'' (Rejected ex_disconnect)
      (onStop ''u'' ex_streaming_in_flight)) ''u'' = Some False \<and>
   nextPhotoTime (takePhotoAsync_settle ''u'' (Resolved ex_photo1)
      (onStop ''u'' ex_streaming_in_flight)) ''u'' = None"
  using stop_then_completion [of "''u''" ex_streaming_in_flight "Rejected ex_disconnect"]
        stop_then_completion [of "''u''" ex_streaming_in_flight "Resolved ex_photo1"]
  by (simp add: ex_streaming_in_flight_eq)

text \<open>
  Claim C7. A long press stores the negation of the streaming flag as read before it, and so
  does the toggle route, which also answers with that negation. Two toggles give back the flag
  as read at the start; when the user had an entry, they give back the whole state. An absent
  entry reads as false.
\<close>

theorem toggle_twice:
  "isStreamingPhotos (onButtonPress uid ''long'' st) uid = Some (\<not> truthy (isStreamingPhotos st uid)) \<and>
   truthy (isStreamingPhotos (onButtonPress uid ''long'' (onButtonPress uid ''long'' st)) uid)
     = truthy (isStreamingPhotos st uid) \<and>
   (isStreamingPhotos st uid = Some b \<longrightarrow>
      onButtonPress uid ''long'' (onButtonPress uid ''long'' st) = st) \<and>
   (uid \<noteq> [] \<longrightarrow>
      isStreamingPhotos (snd (api_toggle_streaming (Some uid) st)) uid
        = Some (\<not> truthy (isStreamingPhotos st uid)) \<and>
      fst (api_toggle_streaming (Some uid) st)
        = Status200 \<lparr>tg_isStreaming = \<not> truthy (isStreamingPhotos st uid),
            tg_message = (if \<not> truthy (isStreamingPhotos st uid)
                          then ''Streaming started'' else ''Streaming stopped'')\<rparr> \<and>
      truthy (isStreamingPhotos (snd (api_toggle_streaming (Some uid)
          (snd (api_toggle_streaming (Some uid) st)))) uid) = truthy (isStreamingPhotos st uid) \<and>
      (isStreamingPhotos st uid = Some b \<longrightarrow>
         snd (api_toggle_streaming (Some uid) (snd (api_toggle_streaming (Some uid) st))) = st))"
proof -
  have upd: "isStreamingPhotos st uid = Some b \<Longrightarrow>
     st\<lparr>isStreamingPhotos := (isStreamingPhotos st)(uid \<mapsto> b)\<rparr> = st"
    by (simp add: map_upd_triv)
  show ?thesis
    by (auto simp: onButtonPress_def api_toggle_streaming_def not_authenticated_def Let_def upd)
qed

theorem toggle_twice_witness:
  "isStreamingPhotos (onSession ''u'' 0 new_app) ''u'' = Some False \<and> ''u'' \<noteq> [] \<and>
   onButtonPress ''u'' ''long'' (onButtonPress ''u'' ''long'' (onSession ''u'' 0 new_app))
     = onSession ''u'' 0 new_app \<and>
   snd (api_toggle_streaming (Some ''u'') (snd (api_toggle_streaming (Some ''u'')
     (onSession ''u'' 0 new_app)))) = onSession ''u'' 0 new_app"
proof -
  have h: "isStreamingPhotos (onSession ''u'' 0 new_app) ''u'' = Some False"
    by (simp add: onSession_def Let_def)
  show ?thesis
    using toggle_twice [of "''u''" "onSession ''u'' 0 new_app" False] h by simp
qed

text \<open>
  Claim C10. Starting a session writes two entries only: the streaming flag of the user becomes
  false and \<open>nextPhotoTime\<close> the clock reading. The cached photos are untouched, the photo
  route answers as before, and the latest-photo route answers as before but for the
  streaming flag it reports.
\<close>

theorem session_start_frame:
  "onSession uid now st =
     st\<lparr>isStreamingPhotos := (isStreamingPhotos st)(uid \<mapsto> False),
        nextPhotoTime := (nextPhotoTime st)(uid \<mapsto> now)\<rparr> \<and>
   photos (onSession uid now st) = photos st \<and>
   latestPhotoTimestamp (onSession uid now st) = latestPhotoTimestamp st \<and>
   api_photo auth rid (onSession uid now st) = api_photo auth rid st \<and>
   (case api_latest_photo auth st of
      Status200 j \<Rightarrow> api_latest_photo auth (onSession uid now st)
         = Status200 (j\<lparr>lp_isStreaming := truthy (isStreamingPhotos (onSession uid now st) (the auth))\<rparr>)
    | r \<Rightarrow> api_latest_photo auth (onSession uid now st) = r)"
  by (simp add: onSession_def Let_def api_photo_def api_latest_photo_def split: option.splits)

theorem session_start_frame_witness:
  "photos (onSession ''u'' 9 (cachePhoto ex_photo1 ''u'' ex_streaming_in_flight)) ''u''
     = photos (cachePhoto ex_photo1 ''u'' ex_streaming_in_flight) ''u'' \<and>
   api_photo (Some ''u'') ''req-1'' (onSession ''u'' 9 (cachePhoto ex_photo1 ''u'' ex_streaming_in_flight))
     = Status200 (''image/jpeg'', [77, 97, 110]) \<and>
   isStreamingPhotos (cachePhoto ex_photo1 ''u'' ex_streaming_in_flight) ''u'' = Some True \<and>
   isStreamingPhotos (onSession ''u'' 9 (cachePhoto ex_photo1 ''u'' ex_streaming_in_flight)) ''u'' = Some False"
  using session_start_frame [of "''u''" 9 "cachePhoto ex_photo1 ''u'' ex_streaming_in_flight" "Some ''u''" "''req-1''"]
  by (simp add: api_photo_def not_authenticated_def ex_photo1_def ex_streaming_in_flight_eq)

text \<open>
  Claim C9. After \<open>cachePhoto\<close> of \<open>p1\<close> and then of \<open>p2\<close> for one user, the cache is as
  if only \<open>p2\<close> had been cached: the entry of the user is \<open>p2\<close>, the routes answer with
  \<open>p2\<close>, and a request for the id of \<open>p1\<close> is not found. The cache is a map, so it holds
  at most one photo per user, and caching for one user leaves the entries of all others as
  they were.
\<close>

theorem cache_replaces:
  "photos (cachePhoto p2 u (cachePhoto p1 u st)) = photos (cachePhoto p2 u st) \<and>
   photos (cachePhoto p2 u (cachePhoto p1 u st)) u =
     Some \<lparr>requestId = requestId p2, buffer = buffer p2, timestamp = timestamp p2,
           mimeType = mimeType p2, filename = filename p2, photo_size = photo_size p2,
           userId = u\<rparr> \<and>
   (\<forall>v. v \<noteq> u \<longrightarrow> photos (cachePhoto p1 u st) v = photos st v) \<and>
   (u \<noteq> [] \<longrightarrow>
      api_latest_photo (Some u) (cachePhoto p2 u (cachePhoto p1 u st))
        = Status200 \<lparr>lp_requestId = requestId p2, lp_timestamp = timestamp p2, lp_hasPhoto = True,
            lp_isStreaming = truthy (isStreamingPhotos st u)\<rparr> \<and>
      api_photo (Some u) (requestId p2) (cachePhoto p2 u (cachePhoto p1 u st))
        = Status200 (mimeType p2, buffer p2) \<and>
      (requestId p1 \<noteq> requestId p2 \<longrightarrow>
         api_photo (Some u) (requestId p1) (cachePhoto p2 u (cachePhoto p1 u st))
           = Status404 ''Photo not found''))"
  by (simp add: api_latest_photo_def api_photo_def not_authenticated_def)

theorem cache_replaces_witness:
  "''v'' \<noteq> ''u'' \<and> ''u'' \<noteq> [] \<and> requestId ex_photo1 \<noteq> requestId ex_photo2 \<and>
   photos (cachePhoto ex_photo1 ''u'' (cachePhoto ex_photo2 ''v'' new_app)) ''v''
     = photos (cachePhoto ex_photo2 ''v'' new_app) ''v'' \<and>
   api_photo (Some ''u'') ''req-1'' (cachePhoto ex_photo2 ''u'' (cachePhoto ex_photo1 ''u'' new_app))
     = Status404 ''Photo not found'' \<and>
   api_photo (Some ''u'') ''req-2'' (cachePhoto ex_photo2 ''u'' (cachePhoto ex_photo1 ''u'' new_app))
     = Status200 (''image/png'', [255, 216])"
  using cache_replaces [of ex_photo2 "''u''" ex_photo1 new_app]
        cache_replaces [of ex_photo2 "''v''" ex_photo1 "cachePhoto ex_photo2 ''v'' new_app"]
  by (simp add: ex_photo1_def ex_photo2_def)

section \<open>The capture coordinator: runs of events\<close>

lemma removeWebSocket_fields [simp]:
  "photos (removeWebSocket sid ws st) = photos st"
  "latestPhotoTimestamp (removeWebSocket sid ws st) = latestPhotoTimestamp st"
  "isStreamingPhotos (removeWebSocket sid ws st) = isStreamingPhotos st"
  "nextPhotoTime (removeWebSocket sid ws st) = nextPhotoTime st"
  "activeRequests (removeWebSocket sid ws st) = activeRequests st"
  "sockets (removeWebSocket sid ws st) = sockets st"
  "pendingCaptures (removeWebSocket sid ws st) = pendingCaptures st"
  by (simp_all add: removeWebSocket_def split: option.splits)

lemma on_connection_fields [simp]:
  "isStreamingPhotos (on_connection ws st) = isStreamingPhotos st"
  "activeRequests (on_connection ws st) = activeRequests st"
  "pendingCaptures (on_connection ws st) = pendingCaptures st"
  by (simp_all add: on_connection_def Let_def)

lemma step_keeps_streaming_off:
  assumes "\<not> truthy (isStreamingPhotos st u)" "\<not> toggles_streaming u e"
  shows "\<not> truthy (isStreamingPhotos (step e st) u)"
proof (cases e)
  case (CaptureEnds v res)
  with assms show ?thesis by (cases res) (simp_all add: handler_defs Let_def)
next
  case (ToggleRequest a)
  with assms show ?thesis
    by (cases a) (auto simp: handler_defs Let_def)
qed (use assms in \<open>auto simp: handler_defs on_close_def Let_def\<close>)

lemma run_keeps_streaming_off:
  "\<not> truthy (isStreamingPhotos st u) \<Longrightarrow> \<forall>ev \<in> set evs. \<not> toggles_streaming u ev
     \<Longrightarrow> \<not> truthy (isStreamingPhotos (run evs st) u)"
proof (induction evs arbitrary: st)
  case Nil
  then show ?case by simp
next
  case (Cons e es)
  then show ?case using step_keeps_streaming_off [of st u e] by simp
qed

text \<open>
  Claim C5. When a capture call fails with an error whose message contains
  \<open>WebSocket not connected\<close>, the streaming flag of the user becomes false. After any
  further events that do not toggle the streaming of that user, a tick of the user changes
  nothing: it issues no capture.
\<close>

theorem disconnect_stops_streaming:
  assumes "message e = Some m" and "str_includes m ''WebSocket not connected''"
  shows "isStreamingPhotos (takePhotoAsync_settle u (Rejected e) st) u = Some False \<and>
    (\<forall>evs. (\<forall>ev \<in> set evs. \<not> toggles_streaming u ev) \<longrightarrow>
       (\<forall>now now'. interval_tick u now now' (run evs (takePhotoAsync_settle u (Rejected e) st))
          = run evs (takePhotoAsync_settle u (Rejected e) st)))"
proof -
  have "m \<noteq> []" using assms(2) by (cases m) simp_all
  then have d: "is_disconnect e" using assms by (simp add: is_disconnect_def)
  then have off: "isStreamingPhotos (takePhotoAsync_settle u (Rejected e) st) u = Some False"
    by (simp add: takePhotoAsync_settle_def takePhotoAsync_body_def Let_def)
  have "interval_tick u now now' (run evs (takePhotoAsync_settle u (Rejected e) st))
          = run evs (takePhotoAsync_settle u (Rejected e) st)"
    if "\<forall>ev \<in> set evs. \<not> toggles_streaming u ev" for evs now now'
  proof -
    have "\<not> truthy (isStreamingPhotos (run evs (takePhotoAsync_settle u (Rejected e) st)) u)"
      using run_keeps_streaming_off [OF _ that] off by simp
    then show ?thesis by (simp add: interval_tick_def)
  qed
  with off show ?thesis by blast
qed

theorem disconnect_stops_streaming_witness:
  "message ex_disconnect = Some ''Error: WebSocket not connected (current state: CLOSED)'' \<and>
   str_includes ''Error: WebSocket not connected (current state: CLOSED)'' ''WebSocket not connected'' \<and>
   truthy (isStreamingPhotos ex_streaming_in_flight ''u'') \<and>
   \<not> toggles_streaming ''u'' (Tick ''u'' 9000 9000) \<and>
   \<not> toggles_streaming ''u'' (ButtonPress ''u'' ''short'') \<and>
   \<not> toggles_streaming ''u'' (Tick ''v'' 1 1) \<and>
   interval_tick ''u'' 20000 20000
     (run [Tick ''u'' 9000 9000, ButtonPress ''u'' ''short'', Tick ''v'' 1 1]
        (takePhotoAsync_settle ''u'' (Rejected ex_disconnect) ex_streaming_in_flight))
   = run [Tick ''u'' 9000 9000, ButtonPress ''u'' ''short'', Tick ''v'' 1 1]
        (takePhotoAsync_settle ''u'' (Rejected ex_disconnect) ex_streaming_in_flight)"
proof -
  have h1: "message ex_disconnect = Some ''Error: WebSocket not connected (current state: CLOSED)''"
    by (simp add: ex_disconnect_def)
  have h2: "str_includes ''Error: WebSocket not connected (current state: CLOSED)'' ''WebSocket not connected''"
    by simp
  have h3: "\<forall>ev \<in> set [Tick ''u'' 9000 9000, ButtonPress ''u'' ''short'', Tick ''v'' 1 1].
       \<not> toggles_streaming ''u'' ev"
    by simp
  have h4: "truthy (isStreamingPhotos ex_streaming_in_flight ''u'')"
    by (simp add: ex_streaming_in_flight_eq)
  from disconnect_stops_streaming [OF h1 h2, of "''u''" ex_streaming_in_flight] h3
  have "interval_tick ''u'' 20000 20000
     (run [Tick ''u'' 9000 9000, ButtonPress ''u'' ''short'', Tick ''v'' 1 1]
        (takePhotoAsync_settle ''u'' (Rejected ex_disconnect) ex_streaming_in_flight))
   = run [Tick ''u'' 9000 9000, ButtonPress ''u'' ''short'', Tick ''v'' 1 1]
        (takePhotoAsync_settle ''u'' (Rejected ex_disconnect) ex_streaming_in_flight)"
    by blast
  with h1 h2 h4 show ?thesis by simp
qed

lemma count_list_remove1_if:
  "count_list (remove1 x xs) y = (if x = y \<and> x \<in> set xs then count_list xs y - 1 else count_list xs y)"
  by (induction xs) auto

lemma count_list_le1_remove1:
  "count_list xs u \<le> 1 \<Longrightarrow> u \<notin> set (remove1 u xs)"
  by (induction xs) (auto simp: count_list_0_iff split: if_splits)

lemma set_remove1_other: "v \<noteq> u \<Longrightarrow> u \<in> set (remove1 v xs) \<longleftrightarrow> u \<in> set xs"
  by (induction xs) auto

lemma settle_pendingCaptures:
  "pendingCaptures (takePhotoAsync_settle v res st) = remove1 v (pendingCaptures st)"
  by (cases res) (simp_all add: handler_defs Let_def)

lemma settle_activeRequests:
  "activeRequests (takePhotoAsync_settle v res st) = (activeRequests st)(v \<mapsto> False)"
  by (cases res) (simp_all add: handler_defs Let_def)

lemma step_flag_tracks_capture:
  assumes "flag_tracks_capture u st" "e = SessionStop u \<longrightarrow> u \<notin> set (pendingCaptures st)"
  shows "flag_tracks_capture u (step e st)"
proof (cases e)
  case (SessionStart v now)
  with assms show ?thesis by (simp add: flag_tracks_capture_def handler_defs Let_def)
next
  case (ButtonPress v p)
  with assms show ?thesis
    by (cases "activeRequests st v")
       (auto simp: flag_tracks_capture_def handler_defs Let_def count_list_0_iff)
next
  case (Tick v now now')
  with assms show ?thesis
    by (cases "activeRequests st v")
       (auto simp: flag_tracks_capture_def handler_defs Let_def count_list_0_iff)
next
  case (CaptureEnds v res)
  show ?thesis
  proof (cases "v \<in> set (pendingCaptures st)")
    case False
    with CaptureEnds assms show ?thesis by simp
  next
    case True
    show ?thesis
    proof (cases "v = u")
      case True
      from assms(1) have le: "count_list (pendingCaptures st) u \<le> 1"
        by (simp add: flag_tracks_capture_def)
      then have "u \<notin> set (remove1 u (pendingCaptures st))"
        by (rule count_list_le1_remove1)
      moreover from le have "count_list (remove1 u (pendingCaptures st)) u = 0"
        by simp
      ultimately have "flag_tracks_capture u (takePhotoAsync_settle u res st)"
        by (simp add: flag_tracks_capture_def settle_pendingCaptures settle_activeRequests)
      with True \<open>v \<in> set (pendingCaptures st)\<close> CaptureEnds show ?thesis
        by simp
    next
      case False
      with assms(1) \<open>v \<in> set (pendingCaptures st)\<close> CaptureEnds show ?thesis
        by (simp add: flag_tracks_capture_def settle_pendingCaptures settle_activeRequests
              count_list_remove1_if set_remove1_other)
    qed
  qed
next
  case (SessionStop v)
  with assms show ?thesis by (auto simp: flag_tracks_capture_def handler_defs Let_def)
next
  case (ToggleRequest a)
  with assms show ?thesis by (auto simp: flag_tracks_capture_def handler_defs Let_def)
next
  case (Connection ws)
  with assms show ?thesis by (simp add: flag_tracks_capture_def)
next
  case (SocketClose ws)
  with assms show ?thesis by (simp add: flag_tracks_capture_def on_close_def)
qed

lemma run_flag_tracks_capture:
  "flag_tracks_capture u st \<Longrightarrow> no_stop_in_flight u evs st \<Longrightarrow> flag_tracks_capture u (run evs st)"
proof (induction evs arbitrary: st)
  case Nil
  then show ?case by simp
next
  case (Cons e es)
  from Cons.prems have "flag_tracks_capture u (step e st)"
    using step_flag_tracks_capture [of u st e] by simp
  with Cons show ?case by simp
qed

text \<open>
  Claim C6 as stated fails in its last part: \<open>onStop\<close> deletes the flag while the capture is
  outstanding, so a press in the next session issues a second capture for the same user.
\<close>

theorem two_captures_after_stop_counterexample:
  "count_list (pendingCaptures (run [SessionStart ''u'' 0, ButtonPress ''u'' ''short'',
      SessionStop ''u'', SessionStart ''u'' 1, ButtonPress ''u'' ''short''] new_app)) ''u'' = 2"
  by (simp add: handler_defs new_app_def Let_def)

text \<open>
  Claim C6, amended. A press that is not a long press, made when no capture is in flight, sets
  the flag and issues exactly one capture; made when a capture is in flight, it changes
  nothing. So along every run in which no session of the user is stopped while a capture of
  that user is outstanding, at most one capture of the user is in flight.
\<close>

theorem short_press_single_flight:
  "(pressType \<noteq> ''long'' \<and> \<not> truthy (activeRequests st uid) \<longrightarrow>
      onButtonPress uid pressType st =
        st\<lparr>activeRequests := (activeRequests st)(uid \<mapsto> True),
           pendingCaptures := pendingCaptures st @ [uid]\<rparr>) \<and>
   (pressType \<noteq> ''long'' \<and> truthy (activeRequests st uid) \<longrightarrow>
      onButtonPress uid pressType st = st) \<and>
   (\<forall>evs. no_stop_in_flight uid evs new_app \<longrightarrow>
      count_list (pendingCaptures (run evs new_app)) uid \<le> 1)"
proof -
  have "flag_tracks_capture uid new_app"
    by (simp add: flag_tracks_capture_def new_app_def)
  then have "\<forall>evs. no_stop_in_flight uid evs new_app \<longrightarrow>
      count_list (pendingCaptures (run evs new_app)) uid \<le> 1"
    using run_flag_tracks_capture [of uid new_app] by (simp add: flag_tracks_capture_def)
  then show ?thesis
    by (simp add: onButtonPress_def takePhotoAsync_call_def)
qed

theorem short_press_single_flight_witness:
  "''short'' \<noteq> ''long'' \<and> \<not> truthy (activeRequests new_app ''u'') \<and>
   truthy (activeRequests (onButtonPress ''u'' ''short'' new_app) ''u'') \<and>
   pendingCaptures (onButtonPress ''u'' ''short'' new_app) = [''u''] \<and>
   onButtonPress ''u'' ''short'' (onButtonPress ''u'' ''short'' new_app)
     = onButtonPress ''u'' ''short'' new_app \<and>
   no_stop_in_flight ''u'' [SessionStart ''u'' 0, ButtonPress ''u'' ''short'', ButtonPress ''u'' ''short'',
       Tick ''u'' 5000 5000, CaptureEnds ''u'' (Rejected ex_timeout), SessionStop ''u'',
       ButtonPress ''u'' ''short''] new_app \<and>
   count_list (pendingCaptures (run [SessionStart ''u'' 0, ButtonPress ''u'' ''short'',
       ButtonPress ''u'' ''short'', Tick ''u'' 5000 5000, CaptureEnds ''u'' (Rejected ex_timeout),
       SessionStop ''u'', ButtonPress ''u'' ''short''] new_app)) ''u'' \<le> 1"
proof -
  have n: "''short'' \<noteq> ''long''" by simp
  have a: "\<not> truthy (activeRequests new_app ''u'')" by (simp add: new_app_def)
  have b: "truthy (activeRequests (onButtonPress ''u'' ''short'' new_app) ''u'')"
    by (simp add: onButtonPress_def takePhotoAsync_call_def new_app_def)
  have c: "no_stop_in_flight ''u'' [SessionStart ''u'' 0, ButtonPress ''u'' ''short'', ButtonPress ''u'' ''short'',
       Tick ''u'' 5000 5000, CaptureEnds ''u'' (Rejected ex_timeout), SessionStop ''u'',
       ButtonPress ''u'' ''short''] new_app"
    by (simp add: handler_defs new_app_def Let_def ex_timeout_def is_disconnect_def)
  have d: "pendingCaptures (onButtonPress ''u'' ''short'' new_app) = [''u'']"
    using short_press_single_flight [of "''short''" new_app "''u''"] n a
    by (simp add: new_app_def)
  have e: "onButtonPress ''u'' ''short'' (onButtonPress ''u'' ''short'' new_app)
     = onButtonPress ''u'' ''short'' new_app"
    using short_press_single_flight [of "''short''" "onButtonPress ''u'' ''short'' new_app" "''u''"] n b
    by blast
  have f: "count_list (pendingCaptures (run [SessionStart ''u'' 0, ButtonPress ''u'' ''short'',
       ButtonPress ''u'' ''short'', Tick ''u'' 5000 5000, CaptureEnds ''u'' (Rejected ex_timeout),
       SessionStop ''u'', ButtonPress ''u'' ''short''] new_app)) ''u'' \<le> 1"
    using short_press_single_flight [of "''short''" new_app "''u''"] c by blast
  from n a b c d e f show ?thesis by blast
qed

section \<open>The broadcast loop\<close>

lemma sockets_update_id: "(\<And>w. f w = sockets st w) \<Longrightarrow> st\<lparr>sockets := f\<rparr> = st"
proof -
  assume "\<And>w. f w = sockets st w"
  then have "f = sockets st" by (simp add: fun_eq_iff)
  then show ?thesis by simp
qed

lemma sockets_update_cong: "(\<And>w. f w = g w) \<Longrightarrow> st\<lparr>sockets := f\<rparr> = st\<lparr>sockets := g\<rparr>"
proof -
  assume "\<And>w. f w = g w"
  then have "f = g" by (simp add: fun_eq_iff)
  then show ?thesis by simp
qed

lemma deliver_Nil [simp]: "deliver msg [] st = st"
  unfolding deliver_def by (rule sockets_update_id) simp

lemma deliver_fields [simp]:
  "activeStreams (deliver msg ws st) = activeStreams st"
  "general_clients (deliver msg ws st) = general_clients st"
  "readyState (sockets (deliver msg ws st) w) = readyState (sockets st w)"
  "sendThrows (sockets (deliver msg ws st) w) = sendThrows (sockets st w)"
  "thrower (deliver msg ws st) w = thrower st w"
  "received (sockets (deliver msg ws st) w) = received (sockets st w) @
      replicate (if readyState (sockets st w) = OPEN then count_list ws w else 0) msg"
  by (simp_all add: deliver_def general_clients_def thrower_def)

lemma deliver_deliver: "deliver msg ys (deliver msg xs st) = deliver msg (xs @ ys) st"
  unfolding deliver_def by (simp add: replicate_add) (intro sockets_update_cong, simp add: replicate_add)

lemma callback_no_throw:
  "\<not> thrower st w \<Longrightarrow> broadcast_callback msg w st = deliver msg [w] st"
proof (cases "readyState (sockets st w) = OPEN")
  case True
  assume "\<not> thrower st w"
  with True have "broadcast_callback msg w st = ws_send w msg st"
    by (simp add: broadcast_callback_def thrower_def)
  also have "\<dots> = deliver msg [w] st"
    unfolding ws_send_def deliver_def using True
    by (intro sockets_update_cong) auto
  finally show ?thesis .
next
  case False
  then have "broadcast_callback msg w st = st" by (simp add: broadcast_callback_def)
  moreover have "deliver msg [w] st = st"
    unfolding deliver_def using False by (intro sockets_update_id) auto
  ultimately show ?thesis by simp
qed

lemma forEach_clients_done: "len \<le> k \<Longrightarrow> forEach_clients k len msg st = st"
  by (subst forEach_clients.simps) simp

lemma forEach_clients_step:
  "k < len \<Longrightarrow> forEach_clients k len msg st =
     forEach_clients (Suc k) len msg
       (if k < length (general_clients st)
        then broadcast_callback msg (general_clients st ! k) st else st)"
  by (subst forEach_clients.simps) simp

lemma forEach_clients_segment:
  "k \<le> i \<Longrightarrow> i \<le> len \<Longrightarrow>
   \<forall>x \<in> set (take (i - k) (drop k (general_clients st))). \<not> thrower st x \<Longrightarrow>
   forEach_clients k len msg st =
     forEach_clients i len msg (deliver msg (take (i - k) (drop k (general_clients st))) st)"
proof (induction k len msg st rule: forEach_clients.induct)
  case (1 k len msg st)
  let ?cs = "general_clients st"
  show ?case
  proof (cases "k = i")
    case True
    then show ?thesis by simp
  next
    case False
    with "1.prems" have ki: "k < i" and kl: "k < len" by simp_all
    show ?thesis
    proof (cases "k < length ?cs")
      case inside: True
      have tk: "take (i - k) (drop k ?cs) = ?cs ! k # take (i - Suc k) (drop (Suc k) ?cs)"
        using inside ki by (simp add: take_Suc_conv_app_nth Cons_nth_drop_Suc [symmetric]
            Suc_diff_Suc [symmetric] del: drop_Suc_Cons)
      have nt: "\<not> thrower st (?cs ! k)"
        using "1.prems"(3) tk by simp
      let ?st1 = "deliver msg [?cs ! k] st"
      have cb: "broadcast_callback msg (?cs ! k) st = ?st1"
        using nt by (rule callback_no_throw)
      have "forEach_clients (Suc k) len msg ?st1 =
          forEach_clients i len msg
            (deliver msg (take (i - Suc k) (drop (Suc k) (general_clients ?st1))) ?st1)"
        using "1.IH" [OF kl] inside cb ki "1.prems" tk by simp
      then show ?thesis
        using forEach_clients_step [OF kl, of msg st] inside cb tk
        by (simp add: deliver_deliver)
    next
      case outside: False
      then have e: "take (i - k) (drop k ?cs) = []" "take (i - Suc k) (drop (Suc k) ?cs) = []"
        by simp_all
      have "forEach_clients (Suc k) len msg st =
          forEach_clients i len msg
            (deliver msg (take (i - Suc k) (drop (Suc k) (general_clients st))) st)"
        using "1.IH" [OF kl] outside ki "1.prems" e by simp
      then show ?thesis
        using forEach_clients_step [OF kl, of msg st] outside e by simp
    qed
  qed
qed

lemma broadcast_no_thrower:
  assumes "\<forall>x \<in> set (general_clients st). \<not> thrower st x"
  shows "broadcastPhoto photo st = deliver (broadcast_message photo) (general_clients st) st"
proof -
  let ?n = "length (general_clients st)"
  have "forEach_clients 0 ?n (broadcast_message photo) st =
      forEach_clients ?n ?n (broadcast_message photo)
        (deliver (broadcast_message photo) (take (?n - 0) (drop 0 (general_clients st))) st)"
    using assms by (intro forEach_clients_segment) simp_all
  then show ?thesis
    by (simp add: broadcastPhoto_def forEach_clients_done)
qed

lemma indexOf_nth_distinct: "distinct xs \<Longrightarrow> i < length xs \<Longrightarrow> indexOf xs (xs ! i) = Some i"
proof (induction xs arbitrary: i)
  case Nil
  then show ?case by simp
next
  case (Cons x xs)
  then show ?case by (cases i) auto
qed

lemma splice1_remove1: "distinct xs \<Longrightarrow> i < length xs \<Longrightarrow> splice1 i xs = remove1 (xs ! i) xs"
proof (induction xs arbitrary: i)
  case Nil
  then show ?case by simp
next
  case (Cons x xs)
  show ?case
  proof (cases i)
    case 0
    then show ?thesis by (simp add: splice1_def)
  next
    case (Suc j)
    with Cons.prems have "splice1 j xs = remove1 (xs ! j) xs" "xs ! j \<noteq> x"
      using Cons.IH [of j] by auto
    with Suc show ?thesis by (simp add: splice1_def)
  qed
qed

lemma count_list_distinct: "distinct xs \<Longrightarrow> count_list xs x = (if x \<in> set xs then 1 else 0)"
  by (induction xs) auto

lemma general_clients_Some: "activeStreams st ''general'' = Some cs \<Longrightarrow> general_clients st = cs"
  by (simp add: general_clients_def)

lemma broadcast_one_thrower:
  assumes reg: "activeStreams st ''general'' = Some cs" and dist: "distinct cs"
    and i: "i < length cs" and thr: "thrower st (cs ! i)"
    and others: "\<forall>x \<in> set cs. x \<noteq> cs ! i \<longrightarrow> \<not> thrower st x"
  shows "broadcastPhoto photo st =
     (deliver (broadcast_message photo) (take i cs @ drop (Suc (Suc i)) cs) st)
       \<lparr>activeStreams := (activeStreams st)(''general'' \<mapsto> splice1 i cs)\<rparr>"
proof -
  let ?m = "broadcast_message photo" and ?n = "length cs"
  have gc: "general_clients st = cs" using reg by (rule general_clients_Some)
  have before: "\<forall>x \<in> set (take i cs). \<not> thrower st x"
  proof
    fix x assume x: "x \<in> set (take i cs)"
    then have "x \<in> set cs" by (rule in_set_takeD)
    moreover have "x \<noteq> cs ! i"
      using x dist i by (metis append_take_drop_id distinct_append disjoint_iff
          Cons_nth_drop_Suc list.set_intros(1))
    ultimately show "\<not> thrower st x" using others by blast
  qed
  let ?st1 = "deliver ?m (take i cs) st"
  have s1: "forEach_clients 0 ?n ?m st = forEach_clients i ?n ?m ?st1"
    using forEach_clients_segment [of 0 i ?n st ?m] i before gc by simp
  let ?st2 = "?st1\<lparr>activeStreams := (activeStreams st)(''general'' \<mapsto> splice1 i cs)\<rparr>"
  have "removeWebSocket ''general'' (cs ! i) ?st1 = ?st2"
    using reg indexOf_nth_distinct [OF dist i] by (simp add: removeWebSocket_def)
  then have cb: "broadcast_callback ?m (cs ! i) ?st1 = ?st2"
    using thr by (simp add: broadcast_callback_def thrower_def)
  have s2: "forEach_clients i ?n ?m ?st1 = forEach_clients (Suc i) ?n ?m ?st2"
    using forEach_clients_step [OF i, of ?m ?st1] gc i cb by simp
  have gc2: "general_clients ?st2 = splice1 i cs" by (simp add: general_clients_def)
  have dr: "drop (Suc i) (splice1 i cs) = drop (Suc (Suc i)) cs"
    using i by (simp add: splice1_def)
  have after: "\<forall>x \<in> set (drop (Suc (Suc i)) cs). \<not> thrower ?st2 x"
  proof
    fix x assume x: "x \<in> set (drop (Suc (Suc i)) cs)"
    then have "x \<in> set cs" by (rule in_set_dropD)
    moreover have "x \<noteq> cs ! i"
    proof
      assume "x = cs ! i"
      with x obtain j where "j < length (drop (Suc (Suc i)) cs)" "drop (Suc (Suc i)) cs ! j = cs ! i"
        by (auto simp: in_set_conv_nth)
      then have "Suc (Suc i) + j < length cs" "cs ! (Suc (Suc i) + j) = cs ! i" by simp_all
      with dist i show False by (simp add: nth_eq_iff_index_eq)
    qed
    ultimately have "\<not> thrower st x" using others by blast
    then show "\<not> thrower ?st2 x" by (simp add: thrower_def)
  qed
  have s3: "forEach_clients (Suc i) ?n ?m ?st2 =
      forEach_clients ?n ?n ?m (deliver ?m (take (?n - Suc i) (drop (Suc i) (general_clients ?st2))) ?st2)"
    using i after by (intro forEach_clients_segment) (simp_all add: gc2 dr)
  have "take (?n - Suc i) (drop (Suc i) (general_clients ?st2)) = drop (Suc (Suc i)) cs"
    by (simp add: gc2 dr)
  then have s4: "forEach_clients (Suc i) ?n ?m ?st2 = deliver ?m (drop (Suc (Suc i)) cs) ?st2"
    using s3 by (simp add: forEach_clients_done)
  have "deliver ?m (drop (Suc (Suc i)) cs) ?st2 =
      (deliver ?m (drop (Suc (Suc i)) cs) ?st1)\<lparr>activeStreams := (activeStreams st)(''general'' \<mapsto> splice1 i cs)\<rparr>"
    by (simp add: deliver_def)
  then show ?thesis
    using s1 s2 s4 gc by (simp add: broadcastPhoto_def deliver_deliver)
qed

lemmas broadcast_eval_defs = broadcastPhoto_def general_clients_def forEach_clients.simps
  broadcast_callback_def removeWebSocket_def ws_send_def splice1_def new_app_def ex_open_socket_def

lemma forEach_clients_received:
  "\<exists>n. received (sockets (forEach_clients k len msg st) w)
        = received (sockets st w) @ replicate n msg"
proof (induction k len msg st rule: forEach_clients.induct)
  case (1 k len msg st)
  show ?case
  proof (cases "k < len")
    case False
    then have "received (sockets (forEach_clients k len msg st) w)
        = received (sockets st w) @ replicate 0 msg"
      by (simp add: forEach_clients_done)
    then show ?thesis by blast
  next
    case True
    define st1 where "st1 = (if k < length (general_clients st)
        then broadcast_callback msg (general_clients st ! k) st else st)"
    have "\<exists>n. received (sockets st1 w) = received (sockets st w) @ replicate n msg"
    proof (cases "received (sockets st1 w) = received (sockets st w)")
      case True
      then have "received (sockets st1 w) = received (sockets st w) @ replicate 0 msg" by simp
      then show ?thesis by blast
    next
      case False
      then have "received (sockets st1 w) = received (sockets st w) @ replicate 1 msg"
        by (auto simp: st1_def broadcast_callback_def ws_send_def split: if_splits)
      then show ?thesis by blast
    qed
    then obtain a where a: "received (sockets st1 w) = received (sockets st w) @ replicate a msg" ..
    from "1.IH" [OF True] obtain b where
      b: "received (sockets (forEach_clients (Suc k) len msg st1) w)
            = received (sockets st1 w) @ replicate b msg"
      unfolding st1_def by blast
    have "forEach_clients k len msg st = forEach_clients (Suc k) len msg st1"
      using forEach_clients_step [OF True] by (simp add: st1_def)
    with a b have "received (sockets (forEach_clients k len msg st) w)
        = received (sockets st w) @ replicate (a + b) msg"
      by (simp add: replicate_add)
    then show ?thesis by blast
  qed
qed

lemma quote_char_base64_alphabet: "\<forall>c \<in> set base64_alphabet. quote_char c = [c]"
  by (simp add: base64_alphabet_def quote_char_def)

lemma quote_char_base64_char: "quote_char (base64_char n) = [base64_char n]"
proof -
  have "base64_char n \<in> set base64_alphabet"
    unfolding base64_char_def by (rule nth_mem) (simp add: base64_alphabet_def)
  then show ?thesis using quote_char_base64_alphabet by blast
qed

lemma quote_base64_nat: "concat (map quote_char (base64_nat xs)) = base64_nat xs"
  by (induction xs rule: base64_nat.induct)
     (simp_all add: quote_char_base64_char, simp_all add: quote_char_def)

lemma quote_string_base64: "quote_string (toString_base64 bytes) = in_quotes (toString_base64 bytes)"
  by (simp add: quote_string_def in_quotes_def toString_base64_def quote_base64_nat)

section \<open>Numbers, strings and base64 read back\<close>

text \<open>
  What \<open>JSON.stringify\<close> and the base64 conversion of a buffer write, the reader of
  the wire format reads back: the digits of an integer below \<open>2^53\<close> in magnitude, the
  characters of a string, the bytes of a buffer.
\<close>

lemma digit_char:
  assumes "n < 10"
  shows "is_digit (''0123456789'' ! n)" "of_char (''0123456789'' ! n) - 48 = n"
    "''0123456789'' ! n = CHR ''0'' \<longleftrightarrow> n = 0"
proof -
  from assms have "n \<in> {0, 1, 2, 3, 4, 5, 6, 7, 8, 9}" by auto
  then show "is_digit (''0123456789'' ! n)" "of_char (''0123456789'' ! n) - 48 = n"
    "''0123456789'' ! n = CHR ''0'' \<longleftrightarrow> n = 0"
    by (auto simp: is_digit_def)
qed

lemma decimal_nat_not_Nil [simp]: "decimal_nat n \<noteq> []"
  by (subst decimal_nat.simps) simp

lemma decimal_nat_digits: "c \<in> set (decimal_nat n) \<Longrightarrow> is_digit c"
proof (induction n rule: decimal_nat.induct)
  case (1 n)
  show ?case
  proof (cases "n < 10")
    case True
    with "1.prems" show ?thesis
      by (subst (asm) decimal_nat.simps) (simp add: digit_char)
  next
    case False
    with "1.prems" have "c \<in> set (decimal_nat (n div 10)) \<or> c = ''0123456789'' ! (n mod 10)"
      by (subst (asm) decimal_nat.simps) auto
    then show ?thesis using "1.IH" False by (auto simp: digit_char)
  qed
qed

lemma digits_value_snoc: "digits_value (ds @ [c]) = 10 * digits_value ds + (of_char c - 48)"
  by (simp add: digits_value_def)

lemma digits_value_decimal_nat: "digits_value (decimal_nat n) = n"
proof (induction n rule: decimal_nat.induct)
  case (1 n)
  show ?case
  proof (cases "n < 10")
    case True
    then show ?thesis
      by (subst decimal_nat.simps) (simp add: digits_value_def digit_char)
  next
    case False
    then have "decimal_nat n = decimal_nat (n div 10) @ [''0123456789'' ! (n mod 10)]"
      by (subst decimal_nat.simps) simp
    then show ?thesis using "1.IH" False
      by (simp add: digits_value_snoc digit_char)
  qed
qed

lemma hd_decimal_nat: "0 < n \<Longrightarrow> hd (decimal_nat n) \<noteq> CHR ''0''"
proof (induction n rule: decimal_nat.induct)
  case (1 n)
  show ?case
  proof (cases "n < 10")
    case True
    then have "decimal_nat n = [''0123456789'' ! n]"
      by (subst decimal_nat.simps) simp
    with "1.prems" digit_char(3) [OF True] show ?thesis
      by (simp del: nth_Cons_numeral nth_Cons')
  next
    case False
    then have "decimal_nat n = decimal_nat (n div 10) @ [''0123456789'' ! (n mod 10)]"
      by (subst decimal_nat.simps) simp
    moreover have "hd (decimal_nat (n div 10)) \<noteq> CHR ''0''"
      using "1.IH" False by simp
    ultimately show ?thesis by simp
  qed
qed

lemma decimal_nat_0: "decimal_nat 0 = ''0''"
  by (subst decimal_nat.simps) simp

lemma decimal_nat_times_10: "0 < s \<Longrightarrow> decimal_nat (s * 10) = decimal_nat s @ ''0''"
  by (subst decimal_nat.simps) simp

lemma decimal_nat_times_power: "0 < s \<Longrightarrow> decimal_nat (s * 10 ^ j) = decimal_nat s @ replicate j (CHR ''0'')"
proof (induction j)
  case 0
  then show ?case by simp
next
  case (Suc j)
  have "s * 10 ^ Suc j = (s * 10 ^ j) * 10" by simp
  then have "decimal_nat (s * 10 ^ Suc j) = decimal_nat ((s * 10 ^ j) * 10)"
    by (rule arg_cong)
  also have "\<dots> = decimal_nat (s * 10 ^ j) @ ''0''"
    using Suc.prems by (intro decimal_nat_times_10) simp
  also have "\<dots> = decimal_nat s @ replicate (Suc j) (CHR ''0'')"
    using Suc by (simp add: replicate_append_same)
  finally show ?case .
qed

lemma less_power_length_decimal_nat: "x < 10 ^ length (decimal_nat x)"
proof (induction x rule: decimal_nat.induct)
  case (1 n)
  show ?case
  proof (cases "n < 10")
    case True
    then show ?thesis by (subst decimal_nat.simps) simp
  next
    case False
    then have "decimal_nat n = decimal_nat (n div 10) @ [''0123456789'' ! (n mod 10)]"
      by (subst decimal_nat.simps) simp
    moreover have "n div 10 < 10 ^ length (decimal_nat (n div 10))"
      using "1.IH" False by simp
    ultimately show ?thesis by simp
  qed
qed

lemma length_decimal_nat_le: "x < 10 ^ m \<Longrightarrow> 0 < m \<Longrightarrow> length (decimal_nat x) \<le> m"
proof (induction x arbitrary: m rule: decimal_nat.induct)
  case (1 n)
  show ?case
  proof (cases "n < 10")
    case True
    then show ?thesis using "1.prems" by (subst decimal_nat.simps) simp
  next
    case False
    then have e: "decimal_nat n = decimal_nat (n div 10) @ [''0123456789'' ! (n mod 10)]"
      by (subst decimal_nat.simps) simp
    from "1.prems" False obtain m' where m': "m = Suc m'" "0 < m'"
      by (cases m; cases "m - 1") auto
    with "1.prems" have "n div 10 < 10 ^ m'" by simp
    then have "length (decimal_nat (n div 10)) \<le> m'"
      using "1.IH" False m' by simp
    with e m' show ?thesis by simp
  qed
qed

lemma bit_length_le: "bit_length v \<le> b \<longleftrightarrow> v < 2 ^ b"
proof (induction v arbitrary: b rule: bit_length.induct)
  case (1 n)
  show ?case
  proof (cases "n = 0")
    case True
    then show ?thesis by (subst bit_length.simps) simp
  next
    case False
    then have unfold: "bit_length n = Suc (bit_length (n div 2))"
      by (subst bit_length.simps) simp
    show ?thesis
    proof (cases b)
      case 0
      with False unfold show ?thesis by simp
    next
      case (Suc b')
      note unfold
      moreover have "bit_length (n div 2) \<le> b' \<longleftrightarrow> n div 2 < 2 ^ b'"
        using "1.IH" False by simp
      moreover have "n div 2 < 2 ^ b' \<longleftrightarrow> n < 2 ^ Suc b'" by auto
      ultimately show ?thesis using Suc by simp
    qed
  qed
qed

lemma to_double_small: "v < 2 ^ 53 \<Longrightarrow> to_double v = v"
  using bit_length_le [of v 53] by (simp add: to_double_def)

lemma to_double_large:
  assumes "2 ^ 53 \<le> v"
  shows "2 ^ 53 \<le> to_double v"
proof -
  define b where "b = bit_length v"
  have nb: "\<not> b \<le> 53" using assms bit_length_le [of v 53] by (simp add: b_def)
  define e where "e = b - 53"
  have e: "0 < e" "b = 53 + e" using nb by (simp_all add: e_def)
  have "\<not> bit_length v \<le> 52 + e" using e by (simp add: b_def)
  then have "2 ^ (52 + e) \<le> v" using bit_length_le [of v "52 + e"] by simp
  then have "2 ^ 52 * 2 ^ e \<le> v" by (simp add: power_add)
  then have q: "2 ^ 52 \<le> v div 2 ^ e"
    by (simp add: less_eq_div_iff_mult_less_eq)
  have "(2::nat) ^ 53 \<le> 2 ^ 52 * 2 ^ e"
    using e(1) by (cases e) simp_all
  also have "\<dots> \<le> (v div 2 ^ e) * 2 ^ e" using q by simp
  finally have lo: "2 ^ 53 \<le> (v div 2 ^ e) * 2 ^ e" .
  then have hi: "2 ^ 53 \<le> (v div 2 ^ e + 1) * 2 ^ e"
    by (simp add: algebra_simps)
  show ?thesis
    using nb lo hi unfolding to_double_def Let_def b_def [symmetric] e_def [symmetric]
    by (simp del: power_Suc One_nat_def)
qed

lemma to_double_eq_small: "x < 2 ^ 53 \<Longrightarrow> to_double v = x \<Longrightarrow> v = x"
  using to_double_small [of v] to_double_large [of v] by (cases "v < 2 ^ 53") auto

lemma shortest_digits_reads_back:
  "to_double x = x \<Longrightarrow>
   fst (shortest_digits x d k) * 10 ^ (d - snd (shortest_digits x d k)) \<in> {v. to_double v = x}
   \<and> snd (shortest_digits x d k) \<le> max d k"
proof (induction x d k rule: shortest_digits.induct)
  case (1 x d k)
  show ?case
  proof (cases "d \<le> k")
    case True
    then have "shortest_digits x d k = (x, d)" by (subst shortest_digits.simps) simp
    with "1.prems" show ?thesis by simp
  next
    case False
    define p where "p = (10::nat) ^ (d - k)"
    define lo where "lo = x div p"
    define lo_ok where "lo_ok \<longleftrightarrow> to_double (lo * p) = x"
    define hi_ok where "hi_ok \<longleftrightarrow> lo + 1 < 10 ^ k \<and> to_double ((lo + 1) * p) = x"
    have sd: "shortest_digits x d k =
        (if lo_ok \<and> hi_ok then
              (if x - lo * p < (lo + 1) * p - x then (lo, k)
               else if (lo + 1) * p - x < x - lo * p then (lo + 1, k)
               else if even lo then (lo, k) else (lo + 1, k))
            else if lo_ok then (lo, k)
            else if hi_ok then (lo + 1, k)
            else shortest_digits x d (Suc k))"
      using False
      by (subst shortest_digits.simps) (simp add: Let_def p_def lo_def lo_ok_def hi_ok_def)
    have kd: "k \<le> max d k" by simp
    consider (lo) "shortest_digits x d k = (lo, k)" "lo_ok"
      | (hi) "shortest_digits x d k = (lo + 1, k)" "hi_ok"
      | (later) "shortest_digits x d k = shortest_digits x d (Suc k)" "\<not> lo_ok" "\<not> hi_ok"
      using sd by (auto split: if_splits)
    then show ?thesis
    proof cases
      case lo
      then show ?thesis using kd by (simp add: lo_ok_def p_def)
    next
      case hi
      then show ?thesis using kd by (simp add: hi_ok_def p_def)
    next
      case later
      have "fst (shortest_digits x d (Suc k)) * 10 ^ (d - snd (shortest_digits x d (Suc k)))
            \<in> {v. to_double v = x} \<and> snd (shortest_digits x d (Suc k)) \<le> max d (Suc k)"
        using "1.IH" [OF False, of p lo "lo + 1" lo_ok hi_ok] "1.prems" later(2,3)
        by (simp add: p_def lo_def lo_ok_def hi_ok_def)
      moreover have "max d (Suc k) = max d k" using False by simp
      ultimately show ?thesis using later(1) by simp
    qed
  qed
qed

lemma double_text_safe:
  assumes "x < 2 ^ 53"
  shows "double_text x = decimal_nat x"
proof -
  define d where "d = length (decimal_nat x)"
  have xd: "x < 10 ^ d" unfolding d_def by (rule less_power_length_decimal_nat)
  have d1: "1 \<le> d" unfolding d_def by (cases "decimal_nat x") simp_all
  have "x < 10 ^ 16" using assms by simp
  then have d16: "d \<le> 16" unfolding d_def by (rule length_decimal_nat_le) simp
  have rep: "to_double x = x" using assms by (rule to_double_small)
  have no_carry: "to_double (10 ^ d) \<noteq> x"
  proof
    assume "to_double (10 ^ d) = x"
    with assms have "10 ^ d = x" by (rule to_double_eq_small)
    with xd show False by simp
  qed
  obtain s k where sk: "shortest_digits x d 1 = (s, k)" by (cases "shortest_digits x d 1")
  from shortest_digits_reads_back [OF rep, of d 1] sk d1
  have rb: "to_double (s * 10 ^ (d - k)) = x" and kd: "k \<le> d" by (simp_all add: max_def)
  from assms rb have exact: "s * 10 ^ (d - k) = x" by (rule to_double_eq_small)
  have shape: "double_text x = decimal_nat s @ replicate (d - k) (CHR ''0'')"
    using no_carry sk d16 by (simp add: double_text_def d_def [symmetric] Let_def)
  show ?thesis
  proof (cases "s = 0")
    case True
    with exact have x0: "x = 0" by simp
    then have "d = 1" by (simp add: d_def decimal_nat_0)
    then have "shortest_digits x d 1 = (x, d)" by (subst shortest_digits.simps) simp
    with sk x0 \<open>d = 1\<close> shape show ?thesis by simp
  next
    case False
    then have "decimal_nat (s * 10 ^ (d - k)) = decimal_nat s @ replicate (d - k) (CHR ''0'')"
      by (intro decimal_nat_times_power) simp
    with exact shape show ?thesis by simp
  qed
qed

lemma Number_toString_safe:
  assumes "\<bar>i\<bar> < 2 ^ 53"
  shows "Number_toString i = (if i < 0 then ''-'' else []) @ decimal_nat (nat \<bar>i\<bar>)"
    and "JSON_stringify (JNumber i) = Number_toString i"
proof -
  have n: "nat \<bar>i\<bar> < 2 ^ 53" using assms by (simp add: nat_less_iff)
  then have td: "to_double (nat \<bar>i\<bar>) = nat \<bar>i\<bar>" by (rule to_double_small)
  have "(2::nat) ^ 53 \<le> 2 ^ 1024" by simp
  then have fin: "\<not> (2::nat) ^ 1024 \<le> nat \<bar>i\<bar>" using n by linarith
  then show "Number_toString i = (if i < 0 then ''-'' else []) @ decimal_nat (nat \<bar>i\<bar>)"
    using n by (simp add: Number_toString_def td double_text_safe del: power_numeral)
  from fin show "JSON_stringify (JNumber i) = Number_toString i"
    by (simp add: td del: power_numeral)
qed

lemma hex_value_hex_digit: "n < 16 \<Longrightarrow> hex_value (hex_digit n) = Some n"
proof -
  assume "n < 16"
  then have "n \<in> {0, 1, 2, 3, 4, 5, 6, 7, 8, 9, 10, 11, 12, 13, 14, 15}"
    by simp presburger
  then show ?thesis by (auto simp: hex_value_def hex_digit_def)
qed

lemma read_chars_quote_char:
  "read_chars (quote_char c @ rest) = map_option (\<lambda>(s, r). (c # s, r)) (read_chars rest)"
proof -
  consider (named) "c \<in> {CHR 0x22, CHR 0x5C, CHR 0x08, CHR 0x0C, CHR 0x0A, CHR 0x0D, CHR 0x09}"
    | (control) "c \<notin> {CHR 0x22, CHR 0x5C, CHR 0x08, CHR 0x0C, CHR 0x0A, CHR 0x0D, CHR 0x09}"
        "of_char c < (32 :: nat)"
    | (plain) "c \<notin> {CHR 0x22, CHR 0x5C, CHR 0x08, CHR 0x0C, CHR 0x0A, CHR 0x0D, CHR 0x09}"
        "\<not> of_char c < (32 :: nat)"
    by blast
  then show ?thesis
  proof cases
    case named
    then show ?thesis by (auto simp: quote_char_def unescape_def)
  next
    case control
    have d: "(of_char c :: nat) div 16 < 16" "(of_char c :: nat) mod 16 < 16"
      using control(2) by simp_all
    have "char_of (16 * ((of_char c :: nat) div 16) + (of_char c :: nat) mod 16) = c"
      by simp
    moreover have "hex_value (CHR ''0'') = Some 0" by (simp add: hex_value_def)
    ultimately show ?thesis
      using control
      by (simp add: quote_char_def hex_value_hex_digit [OF d(1)] hex_value_hex_digit [OF d(2)])
  next
    case plain
    then show ?thesis by (simp add: quote_char_def)
  qed
qed

lemma read_chars_quoted:
  "read_chars (concat (map quote_char s) @ CHR 0x22 # rest) = Some (s, rest)"
  by (induction s) (simp_all add: read_chars_quote_char)

lemma read_string_quote_string: "read_string (quote_string s @ rest) = Some (s, rest)"
  by (simp add: read_string_def quote_string_def read_chars_quoted)

lemma skip_ws_quote_string [simp]: "skip_ws (quote_string s @ rest) = quote_string s @ rest"
  by (simp add: skip_ws_def quote_string_def is_ws_def)

lemma takeWhile_digits:
  assumes "rest = [] \<or> \<not> is_digit (hd rest)"
  shows "takeWhile is_digit (decimal_nat n @ rest) = decimal_nat n"
    and "dropWhile is_digit (decimal_nat n @ rest) = rest"
proof -
  have all: "\<forall>c \<in> set (decimal_nat n). is_digit c" using decimal_nat_digits by blast
  have r: "takeWhile is_digit rest = []" "dropWhile is_digit rest = rest"
    using assms by (cases rest; simp)+
  show "takeWhile is_digit (decimal_nat n @ rest) = decimal_nat n"
    using all r by (simp add: takeWhile_append2)
  show "dropWhile is_digit (decimal_nat n @ rest) = rest"
    using all r by (simp add: dropWhile_append2)
qed

lemma read_nat_decimal_nat:
  assumes "rest = [] \<or> hd rest = CHR '','' \<or> hd rest = CHR ''}''"
  shows "read_nat (decimal_nat n @ rest) = Some (n, rest)"
proof -
  have nd: "rest = [] \<or> \<not> is_digit (hd rest)"
    using assms by (auto simp: is_digit_def)
  have canon: "\<not> (1 < length (decimal_nat n) \<and> hd (decimal_nat n) = CHR ''0'')"
  proof (cases "n = 0")
    case True
    then show ?thesis by (simp add: decimal_nat_0)
  next
    case False
    then show ?thesis using hd_decimal_nat [of n] by simp
  qed
  have stop: "\<not> (rest \<noteq> [] \<and> (hd rest = CHR ''.'' \<or> hd rest = CHR ''e'' \<or> hd rest = CHR ''E''))"
    using assms by auto
  show ?thesis
    using canon stop
    by (simp add: read_nat_def takeWhile_digits [OF nd] digits_value_decimal_nat Let_def)
qed

lemma read_integer_Number_toString:
  assumes "\<bar>i\<bar> < 2 ^ 53" and "rest = [] \<or> hd rest = CHR '','' \<or> hd rest = CHR ''}''"
  shows "read_integer (skip_ws (Number_toString i @ rest)) = Some (i, rest)"
proof -
  have t: "Number_toString i = (if i < 0 then ''-'' else []) @ decimal_nat (nat \<bar>i\<bar>)"
    using assms(1) by (rule Number_toString_safe)
  have d0: "is_digit (hd (decimal_nat (nat \<bar>i\<bar>)))"
    using decimal_nat_digits [of "hd (decimal_nat (nat \<bar>i\<bar>))" "nat \<bar>i\<bar>"] by simp
  then have h: "hd (decimal_nat (nat \<bar>i\<bar>)) \<noteq> CHR ''-''" "\<not> is_ws (hd (decimal_nat (nat \<bar>i\<bar>)))"
    by (auto simp: is_digit_def is_ws_def)
  obtain c cs where cs: "decimal_nat (nat \<bar>i\<bar>) = c # cs"
    by (cases "decimal_nat (nat \<bar>i\<bar>)") simp_all
  show ?thesis
  proof (cases "i < 0")
    case True
    then have "skip_ws (Number_toString i @ rest) = CHR ''-'' # decimal_nat (nat \<bar>i\<bar>) @ rest"
      by (simp add: t skip_ws_def is_ws_def)
    then show ?thesis
      using True read_nat_decimal_nat [OF assms(2), of "nat \<bar>i\<bar>"]
      by (simp add: read_integer_def)
  next
    case False
    then have "skip_ws (Number_toString i @ rest) = decimal_nat (nat \<bar>i\<bar>) @ rest"
      using h cs by (simp add: t skip_ws_def)
    then show ?thesis
      using False h cs read_nat_decimal_nat [OF assms(2), of "nat \<bar>i\<bar>"]
      by (simp add: read_integer_def)
  qed
qed

lemma base64_values: "map base64_value base64_alphabet = map Some [0..<64]"
  by (simp add: base64_alphabet_def base64_value_def upt_rec)

lemma base64_no_pad: "CHR ''='' \<notin> set base64_alphabet"
  by (simp add: base64_alphabet_def)

lemma length_base64_alphabet: "length base64_alphabet = 64"
  by (simp add: base64_alphabet_def)

lemma base64_value_char [simp]: "base64_value (base64_char n) = Some (n mod 64)"
proof -
  have m: "n mod 64 < length base64_alphabet" by (simp add: length_base64_alphabet)
  have "base64_value (base64_alphabet ! (n mod 64)) = map base64_value base64_alphabet ! (n mod 64)"
    using m by simp
  also have "\<dots> = map Some [0..<64] ! (n mod 64)" by (simp only: base64_values)
  also have "\<dots> = Some (n mod 64)" by simp
  finally show ?thesis by (simp add: base64_char_def)
qed

lemma base64_char_not_pad [simp]: "base64_char n \<noteq> CHR ''=''"
proof -
  have "base64_char n \<in> set base64_alphabet"
    unfolding base64_char_def by (rule nth_mem) (simp add: length_base64_alphabet)
  with base64_no_pad show ?thesis by auto
qed

lemma div_mod_pack:
  fixes x y m :: nat
  assumes "y < m"
  shows "(x * m + y) div m = x" "(x * m + y) mod m = y"
  using assms by simp_all

lemma sextets:
  fixes a b c :: nat
  assumes "a < 256" "b < 256" "c < 256"
  shows "a div 4 < 64" "a mod 4 * 16 + b div 16 < 64" "b mod 16 * 4 + c div 64 < 64" "c mod 64 < 64"
    "a mod 4 * 16 < 64" "b mod 16 * 4 < 64"
    "a div 4 * 4 + (a mod 4 * 16 + b div 16) div 16 = a"
    "(a mod 4 * 16 + b div 16) mod 16 * 16 + (b mod 16 * 4 + c div 64) div 4 = b"
    "(b mod 16 * 4 + c div 64) mod 4 * 64 + c mod 64 = c"
    "a div 4 * 4 + (a mod 4 * 16) div 16 = a" "(a mod 4 * 16) mod 16 = 0"
    "(a mod 4 * 16 + b div 16) mod 16 * 16 + (b mod 16 * 4) div 4 = b" "(b mod 16 * 4) mod 4 = 0"
proof -
  define a1 a0 b1 b0 c1 c0 where "a1 = a div 4" and "a0 = a mod 4" and "b1 = b div 16"
    and "b0 = b mod 16" and "c1 = c div 64" and "c0 = c mod 64"
  have bounds: "a1 < 64" "a0 < 4" "b1 < 16" "b0 < 16" "c1 < 4" "c0 < 64"
    using assms by (simp_all add: a1_def a0_def b1_def b0_def c1_def c0_def less_mult_imp_div_less)
  have split: "a = a1 * 4 + a0" "b = b1 * 16 + b0" "c = c1 * 64 + c0"
    by (simp_all add: a1_def a0_def b1_def b0_def c1_def c0_def)
  have p1: "(a0 * 16 + b1) div 16 = a0" "(a0 * 16 + b1) mod 16 = b1"
    using bounds by (simp_all add: div_mod_pack)
  have p2: "(b0 * 4 + c1) div 4 = b0" "(b0 * 4 + c1) mod 4 = c1"
    using bounds by (simp_all add: div_mod_pack)
  have p3: "(a0 * 16) div 16 = a0" "(a0 * 16) mod 16 = 0" "(b0 * 4) div 4 = b0" "(b0 * 4) mod 4 = 0"
    by simp_all
  show "a div 4 < 64" "a mod 4 * 16 + b div 16 < 64" "b mod 16 * 4 + c div 64 < 64" "c mod 64 < 64"
    "a mod 4 * 16 < 64" "b mod 16 * 4 < 64"
    using bounds unfolding a1_def a0_def b1_def b0_def c1_def c0_def by linarith+
  show "a div 4 * 4 + (a mod 4 * 16 + b div 16) div 16 = a"
    using p1 split unfolding a1_def a0_def b1_def b0_def c1_def c0_def by (simp only:)
  show "(a mod 4 * 16 + b div 16) mod 16 * 16 + (b mod 16 * 4 + c div 64) div 4 = b"
    using p1 p2 split unfolding a1_def a0_def b1_def b0_def c1_def c0_def by (simp only:)
  show "(b mod 16 * 4 + c div 64) mod 4 * 64 + c mod 64 = c"
    using p2 split unfolding a1_def a0_def b1_def b0_def c1_def c0_def by (simp only:)
  show "a div 4 * 4 + (a mod 4 * 16) div 16 = a"
    using p3 split unfolding a1_def a0_def b1_def b0_def c1_def c0_def by (simp only:)
  show "(a mod 4 * 16) mod 16 = 0"
    using p3 unfolding a0_def by (simp only:)
  show "(a mod 4 * 16 + b div 16) mod 16 * 16 + (b mod 16 * 4) div 4 = b"
    using p1 p3 split unfolding a1_def a0_def b1_def b0_def c1_def c0_def by (simp only:)
  show "(b mod 16 * 4) mod 4 = 0"
    using p3 unfolding b0_def by (simp only:)
qed

lemma base64_value_small: "v < 64 \<Longrightarrow> base64_value (base64_char v) = Some v"
  by simp

lemma decode_group3:
  assumes "v1 < 64" "v2 < 64" "v3 < 64" "v4 < 64"
  shows "base64_decode_nat (base64_char v1 # base64_char v2 # base64_char v3 # base64_char v4 # rest) =
     map_option (\<lambda>bs. [v1 * 4 + v2 div 16, (v2 mod 16) * 16 + v3 div 4, (v3 mod 4) * 64 + v4] @ bs)
       (base64_decode_nat rest)"
  using assms by (cases "base64_decode_nat rest") simp_all

lemma decode_group2:
  assumes "v1 < 64" "v2 < 64" "v3 < 64" "v3 mod 4 = 0"
  shows "base64_decode_nat [base64_char v1, base64_char v2, base64_char v3, CHR ''=''] =
     Some [v1 * 4 + v2 div 16, (v2 mod 16) * 16 + v3 div 4]"
  using assms by simp

lemma decode_group1:
  assumes "v1 < 64" "v2 < 64" "v2 mod 16 = 0"
  shows "base64_decode_nat [base64_char v1, base64_char v2, CHR ''='', CHR ''=''] =
     Some [v1 * 4 + v2 div 16]"
  using assms by simp

lemma base64_decode_nat_base64_nat:
  "\<forall>x \<in> set xs. x < 256 \<Longrightarrow> base64_decode_nat (base64_nat xs) = Some xs"
proof (induction xs rule: base64_nat.induct)
  case 1
  then show ?case by simp
next
  case (2 a)
  then have a: "a < 256" by simp
  have "base64_decode_nat [base64_char (a div 4), base64_char (a mod 4 * 16), CHR ''='', CHR ''='']
      = Some [a div 4 * 4 + (a mod 4 * 16) div 16]"
    using sextets(1,5,11) [OF a a a] by (rule decode_group1)
  also have "\<dots> = Some [a]" using sextets(10) [OF a a a] by (simp only:)
  finally show ?case by (simp only: base64_nat.simps)
next
  case (3 a b)
  then have a: "a < 256" and b: "b < 256" by simp_all
  have "base64_decode_nat [base64_char (a div 4), base64_char (a mod 4 * 16 + b div 16),
        base64_char (b mod 16 * 4), CHR ''='']
      = Some [a div 4 * 4 + (a mod 4 * 16 + b div 16) div 16,
              (a mod 4 * 16 + b div 16) mod 16 * 16 + (b mod 16 * 4) div 4]"
    using sextets(1,2,6,13) [OF a b b] by (rule decode_group2)
  also have "\<dots> = Some [a, b]" using sextets(7,12) [OF a b b] by (simp only:)
  finally show ?case by (simp only: base64_nat.simps)
next
  case (4 a b c rest)
  then have a: "a < 256" and b: "b < 256" and c: "c < 256" by simp_all
  have r: "base64_decode_nat (base64_nat rest) = Some rest" using 4 by simp
  have "base64_decode_nat (base64_char (a div 4) # base64_char (a mod 4 * 16 + b div 16) #
        base64_char (b mod 16 * 4 + c div 64) # base64_char (c mod 64) # base64_nat rest)
      = map_option (\<lambda>bs. [a div 4 * 4 + (a mod 4 * 16 + b div 16) div 16,
              (a mod 4 * 16 + b div 16) mod 16 * 16 + (b mod 16 * 4 + c div 64) div 4,
              (b mod 16 * 4 + c div 64) mod 4 * 64 + c mod 64] @ bs)
          (base64_decode_nat (base64_nat rest))"
    using sextets(1,2,3,4) [OF a b c] by (rule decode_group3)
  also have "\<dots> = Some (a # b # c # rest)"
    using sextets(7,8,9) [OF a b c] r by simp
  finally show ?case by (simp only: base64_nat.simps append_Cons append_Nil)
qed

lemma base64_decode_toString_base64: "base64_decode (toString_base64 bytes) = Some bytes"
proof -
  have "unat x < 256" for x :: "8 word"
    using unsigned_less [of x] by simp
  then have "\<forall>x \<in> set (map unat bytes). x < 256" by auto
  then have "base64_decode_nat (base64_nat (map unat bytes)) = Some (map unat bytes)"
    by (rule base64_decode_nat_base64_nat)
  then show ?thesis
    by (simp add: base64_decode_def toString_base64_def comp_def)
qed

lemma token_hit: "t \<noteq> [] \<Longrightarrow> \<not> is_ws (hd t) \<Longrightarrow> token t (t @ r) = Some r"
  by (cases t) (simp_all add: token_def skip_ws_def)

lemma token_open: "token ''{'' (''{'' @ r) = Some r"
  by (rule token_hit) (simp_all add: is_ws_def)

lemma token_comma: "token '','' ('','' @ r) = Some r"
  by (rule token_hit) (simp_all add: is_ws_def)

lemma token_colon: "token '':'' ('':'' @ r) = Some r"
  by (rule token_hit) (simp_all add: is_ws_def)

lemma token_close: "token ''}'' ''}'' = Some []"
  using token_hit [of "''}''" "[]"] by (simp add: is_ws_def)

lemma member_key_hit: "member_key k (in_quotes k @ '':'' @ r) = Some r"
proof -
  have "token (in_quotes k) (in_quotes k @ '':'' @ r) = Some ('':'' @ r)"
    by (rule token_hit) (simp_all add: in_quotes_def is_ws_def)
  then show ?thesis by (simp only: member_key_def Option.bind.simps token_colon)
qed

lemma read_string_hit: "read_string (skip_ws (quote_string s @ r)) = Some (s, r)"
  by (simp only: skip_ws_quote_string read_string_quote_string)

lemma read_integer_comma:
  "\<bar>i\<bar> < 2 ^ 53 \<Longrightarrow>
   read_integer (skip_ws (JSON_stringify (JNumber i) @ '','' @ r)) = Some (i, '','' @ r)"
  using read_integer_Number_toString [of i "'','' @ r"] Number_toString_safe(2) [of i] by simp

lemma read_integer_close:
  "\<bar>i\<bar> < 2 ^ 53 \<Longrightarrow>
   read_integer (skip_ws (JSON_stringify (JNumber i) @ ''}'')) = Some (i, ''}'')"
  using read_integer_Number_toString [of i "''}''"] Number_toString_safe(2) [of i] by simp

lemma quote_key: "quote_string ''type'' = in_quotes ''type''" "quote_string ''data'' = in_quotes ''data''"
  "quote_string ''mimeType'' = in_quotes ''mimeType''"
  "quote_string ''timestamp'' = in_quotes ''timestamp''" "quote_string ''size'' = in_quotes ''size''"
  by (simp_all add: quote_string_def in_quotes_def quote_char_def)

lemma envelope_text:
  "JSON_stringify (JObject
     [(''type'', JString ty), (''data'', JString dt), (''mimeType'', JString mt),
      (''timestamp'', JNumber ts), (''size'', JNumber sz)]) =
   ''{'' @ in_quotes ''type'' @ '':'' @ quote_string ty @ '','' @
   in_quotes ''data'' @ '':'' @ quote_string dt @ '','' @
   in_quotes ''mimeType'' @ '':'' @ quote_string mt @ '','' @
   in_quotes ''timestamp'' @ '':'' @ JSON_stringify (JNumber ts) @ '','' @
   in_quotes ''size'' @ '':'' @ JSON_stringify (JNumber sz) @ ''}''"
  by (simp add: quote_key del: JSON_stringify.simps(2))

lemma read_envelope_text:
  assumes "\<bar>ts\<bar> < 2 ^ 53" "\<bar>sz\<bar> < 2 ^ 53"
  shows "read_envelope
     (''{'' @ in_quotes ''type'' @ '':'' @ quote_string ''photo'' @ '','' @
      in_quotes ''data'' @ '':'' @ quote_string (toString_base64 bytes) @ '','' @
      in_quotes ''mimeType'' @ '':'' @ quote_string mt @ '','' @
      in_quotes ''timestamp'' @ '':'' @ JSON_stringify (JNumber ts) @ '','' @
      in_quotes ''size'' @ '':'' @ JSON_stringify (JNumber sz) @ ''}'') =
    Some \<lparr>env_type = ''photo'', env_data = bytes, env_mimeType = mt,
           env_timestamp = ts, env_size = sz\<rparr>"
proof -
  have e: "skip_ws [] = []" by (simp add: skip_ws_def)
  show ?thesis
    unfolding read_envelope_def
    by (simp only: token_open member_key_hit read_string_hit token_comma
        read_integer_comma [OF assms(1)] read_integer_close [OF assms(2)] token_close
        base64_decode_toString_base64 Option.bind.simps prod.case e simp_thms if_True)
qed

text \<open>
  Claim C8. For a photo whose time value and size are integers below \<open>2^53\<close> in
  magnitude (every time value of a \<open>Date\<close> and every byte count is), the message of a
  broadcast reads as the envelope of the specification: one object with exactly the members
  \<open>type\<close>, \<open>data\<close>, \<open>mimeType\<close>, \<open>timestamp\<close> and \<open>size\<close>, where \<open>type\<close> is
  \<open>photo\<close>, \<open>data\<close> is base64 text that decodes to the bytes of the photo, \<open>mimeType\<close> is
  its MIME type, and \<open>timestamp\<close> and \<open>size\<close> are its time value and its size written as
  integers. The message has no white space between its tokens, and whatever a broadcast
  hands to a socket is this message.
\<close>

theorem photo_envelope:
  assumes "\<bar>timestamp photo\<bar> < 2 ^ 53" and "\<bar>photo_size photo\<bar> < 2 ^ 53"
  shows
   "read_envelope (broadcast_message photo) =
      Some \<lparr>env_type = ''photo'', env_data = buffer photo, env_mimeType = mimeType photo,
             env_timestamp = timestamp photo, env_size = photo_size photo\<rparr> \<and>
    broadcast_message photo =
      ''{'' @ in_quotes ''type'' @ '':'' @ in_quotes ''photo'' @ '','' @
      in_quotes ''data'' @ '':'' @ in_quotes (toString_base64 (buffer photo)) @ '','' @
      in_quotes ''mimeType'' @ '':'' @ quote_string (mimeType photo) @ '','' @
      in_quotes ''timestamp'' @ '':'' @ Number_toString (timestamp photo) @ '','' @
      in_quotes ''size'' @ '':'' @ Number_toString (photo_size photo) @ ''}'' \<and>
    (\<forall>w. \<exists>n. received (sockets (broadcastPhoto photo st) w)
         = received (sockets st w) @ replicate n (broadcast_message photo))"
proof -
  have m: "broadcast_message photo =
      ''{'' @ in_quotes ''type'' @ '':'' @ quote_string ''photo'' @ '','' @
      in_quotes ''data'' @ '':'' @ quote_string (toString_base64 (buffer photo)) @ '','' @
      in_quotes ''mimeType'' @ '':'' @ quote_string (mimeType photo) @ '','' @
      in_quotes ''timestamp'' @ '':'' @ JSON_stringify (JNumber (timestamp photo)) @ '','' @
      in_quotes ''size'' @ '':'' @ JSON_stringify (JNumber (photo_size photo)) @ ''}''"
    unfolding broadcast_message_def Let_def by (rule envelope_text)
  have r: "read_envelope (broadcast_message photo) =
      Some \<lparr>env_type = ''photo'', env_data = buffer photo, env_mimeType = mimeType photo,
             env_timestamp = timestamp photo, env_size = photo_size photo\<rparr>"
    unfolding m using assms by (rule read_envelope_text)
  have p: "quote_string ''photo'' = in_quotes ''photo''"
    by (simp add: quote_string_def in_quotes_def quote_char_def)
  have t: "broadcast_message photo =
      ''{'' @ in_quotes ''type'' @ '':'' @ in_quotes ''photo'' @ '','' @
      in_quotes ''data'' @ '':'' @ in_quotes (toString_base64 (buffer photo)) @ '','' @
      in_quotes ''mimeType'' @ '':'' @ quote_string (mimeType photo) @ '','' @
      in_quotes ''timestamp'' @ '':'' @ Number_toString (timestamp photo) @ '','' @
      in_quotes ''size'' @ '':'' @ Number_toString (photo_size photo) @ ''}''"
    unfolding m
    by (simp only: p quote_string_base64 Number_toString_safe(2) [OF assms(1)]
        Number_toString_safe(2) [OF assms(2)])
  have s: "\<forall>w. \<exists>n. received (sockets (broadcastPhoto photo st) w)
         = received (sockets st w) @ replicate n (broadcast_message photo)"
    using forEach_clients_received by (simp add: broadcastPhoto_def)
  from r t s show ?thesis by blast
qed

theorem photo_envelope_witness:
  "\<bar>timestamp ex_stored1\<bar> < 2 ^ 53 \<and> \<bar>photo_size ex_stored1\<bar> < 2 ^ 53 \<and>
   \<bar>timestamp ex_stored2\<bar> < 2 ^ 53 \<and> \<bar>photo_size ex_stored2\<bar> < 2 ^ 53 \<and>
   read_envelope (broadcast_message ex_stored1) =
     Some \<lparr>env_type = ''photo'', env_data = [77, 97, 110], env_mimeType = ''image/jpeg'',
            env_timestamp = 1700000000000, env_size = 3\<rparr> \<and>
   read_envelope (broadcast_message ex_stored2) =
     Some \<lparr>env_type = ''photo'', env_data = [255],
            env_mimeType = [CHR ''a'', CHR 0x22, CHR 0x5C, CHR 0x0A, CHR 0x01],
            env_timestamp = - 86400000, env_size = 1\<rparr> \<and>
   broadcast_message ex_stored1 =
     ''{'' @ in_quotes ''type'' @ '':'' @ in_quotes ''photo'' @ '','' @
     in_quotes ''data'' @ '':'' @ in_quotes ''TWFu'' @ '','' @
     in_quotes ''mimeType'' @ '':'' @ in_quotes ''image/jpeg'' @ '','' @
     in_quotes ''timestamp'' @ '':1700000000000,'' @
     in_quotes ''size'' @ '':3}'' \<and>
   broadcast_message ex_stored2 =
     ''{'' @ in_quotes ''type'' @ '':'' @ in_quotes ''photo'' @ '','' @
     in_quotes ''data'' @ '':'' @ in_quotes ''/w=='' @ '','' @
     in_quotes ''mimeType'' @ '':'' @
       in_quotes ([CHR ''a'', CHR 0x5C, CHR 0x22, CHR 0x5C, CHR 0x5C, CHR 0x5C, CHR ''n''] @ [CHR 0x5C] @ ''u0001'') @ '','' @
     in_quotes ''timestamp'' @ '':-86400000,'' @
     in_quotes ''size'' @ '':1}''"
proof -
  have h1: "\<bar>timestamp ex_stored1\<bar> < 2 ^ 53" "\<bar>photo_size ex_stored1\<bar> < 2 ^ 53"
    by (simp_all add: ex_stored1_def)
  have h2: "\<bar>timestamp ex_stored2\<bar> < 2 ^ 53" "\<bar>photo_size ex_stored2\<bar> < 2 ^ 53"
    by (simp_all add: ex_stored2_def)
  have n1: "Number_toString (timestamp ex_stored1) = ''1700000000000''"
    "Number_toString (photo_size ex_stored1) = ''3''"
    using h1 by (simp_all add: Number_toString_safe(1)) (simp_all add: ex_stored1_def decimal_nat.simps)
  have n2: "Number_toString (timestamp ex_stored2) = ''-86400000''"
    "Number_toString (photo_size ex_stored2) = ''1''"
    using h2 by (simp_all add: Number_toString_safe(1)) (simp_all add: ex_stored2_def decimal_nat.simps)
  have b1: "toString_base64 (buffer ex_stored1) = ''TWFu''"
    by (simp add: ex_stored1_def toString_base64_def base64_char_def base64_alphabet_def)
  have b2: "toString_base64 (buffer ex_stored2) = ''/w==''"
    by (simp add: ex_stored2_def toString_base64_def base64_char_def base64_alphabet_def)
  have q1: "quote_string (mimeType ex_stored1) = in_quotes ''image/jpeg''"
    by (simp add: ex_stored1_def quote_string_def quote_char_def in_quotes_def)
  have q2: "quote_string (mimeType ex_stored2) =
      in_quotes ([CHR ''a'', CHR 0x5C, CHR 0x22, CHR 0x5C, CHR 0x5C, CHR 0x5C, CHR ''n''] @ [CHR 0x5C] @ ''u0001'')"
    by (simp add: ex_stored2_def quote_string_def quote_char_def in_quotes_def hex_digit_def)
  from photo_envelope [OF h1, of new_app] have
    r1: "read_envelope (broadcast_message ex_stored1) =
      Some \<lparr>env_type = ''photo'', env_data = buffer ex_stored1, env_mimeType = mimeType ex_stored1,
             env_timestamp = timestamp ex_stored1, env_size = photo_size ex_stored1\<rparr>"
    and t1: "broadcast_message ex_stored1 =
      ''{'' @ in_quotes ''type'' @ '':'' @ in_quotes ''photo'' @ '','' @
      in_quotes ''data'' @ '':'' @ in_quotes (toString_base64 (buffer ex_stored1)) @ '','' @
      in_quotes ''mimeType'' @ '':'' @ quote_string (mimeType ex_stored1) @ '','' @
      in_quotes ''timestamp'' @ '':'' @ Number_toString (timestamp ex_stored1) @ '','' @
      in_quotes ''size'' @ '':'' @ Number_toString (photo_size ex_stored1) @ ''}''"
    by blast+
  from photo_envelope [OF h2, of new_app] have
    r2: "read_envelope (broadcast_message ex_stored2) =
      Some \<lparr>env_type = ''photo'', env_data = buffer ex_stored2, env_mimeType = mimeType ex_stored2,
             env_timestamp = timestamp ex_stored2, env_size = photo_size ex_stored2\<rparr>"
    and t2: "broadcast_message ex_stored2 =
      ''{'' @ in_quotes ''type'' @ '':'' @ in_quotes ''photo'' @ '','' @
      in_quotes ''data'' @ '':'' @ in_quotes (toString_base64 (buffer ex_stored2)) @ '','' @
      in_quotes ''mimeType'' @ '':'' @ quote_string (mimeType ex_stored2) @ '','' @
      in_quotes ''timestamp'' @ '':'' @ Number_toString (timestamp ex_stored2) @ '','' @
      in_quotes ''size'' @ '':'' @ Number_toString (photo_size ex_stored2) @ ''}''"
    by blast+
  have r1': "read_envelope (broadcast_message ex_stored1) =
     Some \<lparr>env_type = ''photo'', env_data = [77, 97, 110], env_mimeType = ''image/jpeg'',
            env_timestamp = 1700000000000, env_size = 3\<rparr>"
    using r1 by (simp add: ex_stored1_def)
  have r2': "read_envelope (broadcast_message ex_stored2) =
     Some \<lparr>env_type = ''photo'', env_data = [255],
            env_mimeType = [CHR ''a'', CHR 0x22, CHR 0x5C, CHR 0x0A, CHR 0x01],
            env_timestamp = - 86400000, env_size = 1\<rparr>"
    using r2 by (simp add: ex_stored2_def)
  have t1': "broadcast_message ex_stored1 =
     ''{'' @ in_quotes ''type'' @ '':'' @ in_quotes ''photo'' @ '','' @
     in_quotes ''data'' @ '':'' @ in_quotes ''TWFu'' @ '','' @
     in_quotes ''mimeType'' @ '':'' @ in_quotes ''image/jpeg'' @ '','' @
     in_quotes ''timestamp'' @ '':1700000000000,'' @
     in_quotes ''size'' @ '':3}''"
    unfolding t1 n1 b1 q1 by simp
  have t2': "broadcast_message ex_stored2 =
     ''{'' @ in_quotes ''type'' @ '':'' @ in_quotes ''photo'' @ '','' @
     in_quotes ''data'' @ '':'' @ in_quotes ''/w=='' @ '','' @
     in_quotes ''mimeType'' @ '':'' @
       in_quotes ([CHR ''a'', CHR 0x5C, CHR 0x22, CHR 0x5C, CHR 0x5C, CHR 0x5C, CHR ''n''] @ [CHR 0x5C] @ ''u0001'') @ '','' @
     in_quotes ''timestamp'' @ '':-86400000,'' @
     in_quotes ''size'' @ '':1}''"
    unfolding t2 n2 b2 q2 by simp
  from h1 h2 r1' r2' t1' t2' show ?thesis by blast
qed

text \<open>
  Claim C2 as stated fails: a client that is closed when the broadcast runs is passed over
  and stays in the registry.
\<close>

theorem closed_client_kept_counterexample:
  "readyState (sockets ex_closed_client 1) = CLOSED \<and>
   activeStreams ex_closed_client ''general'' = Some [1, 2, 3] \<and>
   activeStreams (broadcastPhoto ex_stored1 ex_closed_client) ''general'' = Some [1, 2, 3]"
  by (simp add: ex_closed_client_def broadcast_eval_defs)

text \<open>
  Claim C2, amended. Take a registry of distinct clients. When no open client fails on
  \<open>send\<close>, the broadcast hands the message exactly once to every open client and nothing to
  the others, and the registry is unchanged: a closed client is passed over, not removed
  (\<open>removeWebSocket\<close> removes it on its \<open>close\<close> or \<open>error\<close> event). When exactly one
  open client fails on \<open>send\<close>, the broadcast removes that client from the registry and
  hands it nothing, and every other open client, the one registered right after the failing
  one aside, is handed the message exactly once.
\<close>

theorem broadcast_isolation:
  assumes reg: "activeStreams st ''general'' = Some cs" and dist: "distinct cs"
  shows
   "((\<forall>w \<in> set cs. \<not> (readyState (sockets st w) = OPEN \<and> sendThrows (sockets st w))) \<longrightarrow>
       activeStreams (broadcastPhoto photo st) = activeStreams st \<and>
       (\<forall>w. received (sockets (broadcastPhoto photo st) w) =
             received (sockets st w) @
               (if w \<in> set cs \<and> readyState (sockets st w) = OPEN
                then [broadcast_message photo] else []))) \<and>
    (i < length cs \<and> readyState (sockets st (cs ! i)) = OPEN \<and> sendThrows (sockets st (cs ! i)) \<and>
     (\<forall>w \<in> set cs. w \<noteq> cs ! i \<longrightarrow>
         \<not> (readyState (sockets st w) = OPEN \<and> sendThrows (sockets st w))) \<longrightarrow>
       activeStreams (broadcastPhoto photo st) ''general'' = Some (remove1 (cs ! i) cs) \<and>
       cs ! i \<notin> set (remove1 (cs ! i) cs) \<and>
       received (sockets (broadcastPhoto photo st) (cs ! i)) = received (sockets st (cs ! i)) \<and>
       (\<forall>j < length cs. j \<noteq> i \<and> j \<noteq> Suc i \<longrightarrow>
          received (sockets (broadcastPhoto photo st) (cs ! j)) =
            received (sockets st (cs ! j)) @
              (if readyState (sockets st (cs ! j)) = OPEN then [broadcast_message photo] else [])))"
proof (intro conjI impI)
  assume nt: "\<forall>w \<in> set cs. \<not> (readyState (sockets st w) = OPEN \<and> sendThrows (sockets st w))"
  have gc: "general_clients st = cs" using reg by (rule general_clients_Some)
  have b: "broadcastPhoto photo st = deliver (broadcast_message photo) cs st"
    using broadcast_no_thrower [of st photo] nt gc by (simp add: thrower_def)
  show "activeStreams (broadcastPhoto photo st) = activeStreams st"
    by (simp add: b)
  show "\<forall>w. received (sockets (broadcastPhoto photo st) w) =
             received (sockets st w) @
               (if w \<in> set cs \<and> readyState (sockets st w) = OPEN
                then [broadcast_message photo] else [])"
    by (simp add: b count_list_distinct [OF dist])
next
  assume h: "i < length cs \<and> readyState (sockets st (cs ! i)) = OPEN \<and> sendThrows (sockets st (cs ! i)) \<and>
     (\<forall>w \<in> set cs. w \<noteq> cs ! i \<longrightarrow>
         \<not> (readyState (sockets st w) = OPEN \<and> sendThrows (sockets st w)))"
  then have i: "i < length cs" and thr: "thrower st (cs ! i)"
    and others: "\<forall>x \<in> set cs. x \<noteq> cs ! i \<longrightarrow> \<not> thrower st x"
    by (simp_all add: thrower_def)
  let ?rest = "take i cs @ drop (Suc (Suc i)) cs"
  have b: "broadcastPhoto photo st =
     (deliver (broadcast_message photo) ?rest st)
       \<lparr>activeStreams := (activeStreams st)(''general'' \<mapsto> splice1 i cs)\<rparr>"
    using reg dist i thr others by (rule broadcast_one_thrower)
  have cs: "cs = take i cs @ cs ! i # cs ! Suc i # drop (Suc (Suc i)) cs" if "Suc i < length cs"
    using that by (simp add: Cons_nth_drop_Suc Suc_lessD)
  have cs': "cs = take i cs @ [cs ! i]" if "\<not> Suc i < length cs"
    using that i by (metis Suc_lessI append_Nil2 drop_all id_take_nth_drop le_refl)
  have drest: "distinct ?rest"
  proof (cases "Suc i < length cs")
    case True
    from dist cs [OF True] have "distinct (take i cs @ cs ! i # cs ! Suc i # drop (Suc (Suc i)) cs)"
      by simp
    then show ?thesis by auto
  next
    case False
    then show ?thesis using dist by simp
  qed
  have notin: "cs ! i \<notin> set ?rest"
  proof (cases "Suc i < length cs")
    case True
    from dist cs [OF True] have "distinct (take i cs @ cs ! i # cs ! Suc i # drop (Suc (Suc i)) cs)"
      by simp
    then show ?thesis by auto
  next
    case False
    from dist cs' [OF False] have "distinct (take i cs @ [cs ! i])" by simp
    then show ?thesis using False by auto
  qed
  show "activeStreams (broadcastPhoto photo st) ''general'' = Some (remove1 (cs ! i) cs)"
    by (simp add: b splice1_remove1 [OF dist i])
  show "cs ! i \<notin> set (remove1 (cs ! i) cs)"
    using dist by simp
  show "received (sockets (broadcastPhoto photo st) (cs ! i)) = received (sockets st (cs ! i))"
    using notin by (simp add: b)
  show "\<forall>j < length cs. j \<noteq> i \<and> j \<noteq> Suc i \<longrightarrow>
          received (sockets (broadcastPhoto photo st) (cs ! j)) =
            received (sockets st (cs ! j)) @
              (if readyState (sockets st (cs ! j)) = OPEN then [broadcast_message photo] else [])"
  proof (intro allI impI)
    fix j assume j: "j < length cs" and ne: "j \<noteq> i \<and> j \<noteq> Suc i"
    have "cs ! j \<in> set ?rest"
    proof (cases "j < i")
      case True
      then have "cs ! j = take i cs ! j" "j < length (take i cs)" using i by simp_all
      then show ?thesis by (metis UnI1 nth_mem set_append)
    next
      case False
      with ne have ge: "Suc (Suc i) \<le> j" by simp
      then obtain d where d: "j = Suc (Suc i) + d" by (auto simp: le_iff_add)
      with j have "d < length (drop (Suc (Suc i)) cs)" by simp
      then have "drop (Suc (Suc i)) cs ! d \<in> set (drop (Suc (Suc i)) cs)" by (rule nth_mem)
      moreover have "drop (Suc (Suc i)) cs ! d = cs ! j"
        using d j by (simp del: drop_Suc add: nth_drop)
      ultimately show ?thesis by simp
    qed
    then have "count_list ?rest (cs ! j) = 1"
      using count_list_distinct [OF drest] by simp
    then show "received (sockets (broadcastPhoto photo st) (cs ! j)) =
            received (sockets st (cs ! j)) @
              (if readyState (sockets st (cs ! j)) = OPEN then [broadcast_message photo] else [])"
      by (simp add: b)
  qed
qed

theorem broadcast_isolation_witness:
  "activeStreams ex_closed_client ''general'' = Some [1, 2, 3] \<and> distinct [1, 2, 3 :: nat] \<and>
   readyState (sockets ex_closed_client 1) = CLOSED \<and>
   activeStreams (broadcastPhoto ex_stored1 ex_closed_client) = activeStreams ex_closed_client \<and>
   received (sockets (broadcastPhoto ex_stored1 ex_closed_client) 1) = [] \<and>
   received (sockets (broadcastPhoto ex_stored1 ex_closed_client) 2) = [broadcast_message ex_stored1] \<and>
   received (sockets (broadcastPhoto ex_stored1 ex_closed_client) 3) = [broadcast_message ex_stored1] \<and>
   activeStreams ex_failing_client ''general'' = Some [1, 2, 3, 4] \<and> distinct [1, 2, 3, 4 :: nat] \<and>
   (1 :: nat) < length [1, 2, 3, 4 :: nat] \<and>
   readyState (sockets ex_failing_client ([1, 2, 3, 4] ! 1)) = OPEN \<and>
   sendThrows (sockets ex_failing_client ([1, 2, 3, 4] ! 1)) \<and>
   activeStreams (broadcastPhoto ex_stored1 ex_failing_client) ''general'' = Some [1, 3, 4] \<and>
   received (sockets (broadcastPhoto ex_stored1 ex_failing_client) 1) = [broadcast_message ex_stored1] \<and>
   received (sockets (broadcastPhoto ex_stored1 ex_failing_client) 2) = [] \<and>
   received (sockets (broadcastPhoto ex_stored1 ex_failing_client) 4) = [broadcast_message ex_stored1]"
proof -
  have r1: "activeStreams ex_closed_client ''general'' = Some [1, 2, 3]"
    by (simp add: ex_closed_client_def new_app_def)
  have d1: "distinct [1, 2, 3 :: nat]" by simp
  have c1: "readyState (sockets ex_closed_client 1) = CLOSED"
    by (simp add: ex_closed_client_def new_app_def ex_open_socket_def)
  have n1: "\<forall>w \<in> set [1, 2, 3]. \<not> (readyState (sockets ex_closed_client w) = OPEN
      \<and> sendThrows (sockets ex_closed_client w))"
    by (simp add: ex_closed_client_def new_app_def ex_open_socket_def)
  from broadcast_isolation [OF r1 d1, of ex_stored1 0] n1
  have a1: "activeStreams (broadcastPhoto ex_stored1 ex_closed_client) = activeStreams ex_closed_client"
    and a2: "\<And>w. received (sockets (broadcastPhoto ex_stored1 ex_closed_client) w) =
             received (sockets ex_closed_client w) @
               (if w \<in> set [1, 2, 3] \<and> readyState (sockets ex_closed_client w) = OPEN
                then [broadcast_message ex_stored1] else [])"
    by blast+
  have a3: "received (sockets (broadcastPhoto ex_stored1 ex_closed_client) 1) = []"
    "received (sockets (broadcastPhoto ex_stored1 ex_closed_client) 2) = [broadcast_message ex_stored1]"
    "received (sockets (broadcastPhoto ex_stored1 ex_closed_client) 3) = [broadcast_message ex_stored1]"
    by (simp_all add: a2) (simp_all add: ex_closed_client_def new_app_def ex_open_socket_def)
  have r2: "activeStreams ex_failing_client ''general'' = Some [1, 2, 3, 4]"
    by (simp add: ex_failing_client_def new_app_def)
  have d2: "distinct [1, 2, 3, 4 :: nat]" by simp
  have i2: "(1 :: nat) < length [1, 2, 3, 4 :: nat]" by simp
  have t2: "readyState (sockets ex_failing_client ([1, 2, 3, 4] ! 1)) = OPEN"
    "sendThrows (sockets ex_failing_client ([1, 2, 3, 4] ! 1))"
    by (simp_all add: ex_failing_client_def new_app_def ex_open_socket_def)
  have n2: "\<forall>w \<in> set [1, 2, 3, 4]. w \<noteq> [1, 2, 3, 4] ! 1 \<longrightarrow>
      \<not> (readyState (sockets ex_failing_client w) = OPEN \<and> sendThrows (sockets ex_failing_client w))"
    by (simp add: ex_failing_client_def new_app_def ex_open_socket_def)
  from broadcast_isolation [OF r2 d2, of ex_stored1 1] i2 t2 n2
  have b1: "activeStreams (broadcastPhoto ex_stored1 ex_failing_client) ''general''
        = Some (remove1 ([1, 2, 3, 4] ! 1) [1, 2, 3, 4])"
    and b2: "received (sockets (broadcastPhoto ex_stored1 ex_failing_client) ([1, 2, 3, 4] ! 1))
        = received (sockets ex_failing_client ([1, 2, 3, 4] ! 1))"
    and b3: "\<And>j. j < length [1, 2, 3, 4 :: nat] \<Longrightarrow> j \<noteq> 1 \<and> j \<noteq> Suc 1 \<Longrightarrow>
          received (sockets (broadcastPhoto ex_stored1 ex_failing_client) ([1, 2, 3, 4] ! j)) =
            received (sockets ex_failing_client ([1, 2, 3, 4] ! j)) @
              (if readyState (sockets ex_failing_client ([1, 2, 3, 4] ! j)) = OPEN
               then [broadcast_message ex_stored1] else [])"
    by blast+
  have b4: "activeStreams (broadcastPhoto ex_stored1 ex_failing_client) ''general'' = Some [1, 3, 4]"
    using b1 by simp
  have b5: "received (sockets (broadcastPhoto ex_stored1 ex_failing_client) 2) = []"
    using b2 by (simp add: ex_failing_client_def new_app_def ex_open_socket_def)
  have b6: "received (sockets (broadcastPhoto ex_stored1 ex_failing_client) 1) = [broadcast_message ex_stored1]"
    using b3 [of 0] by (simp add: ex_failing_client_def new_app_def ex_open_socket_def)
  have b7: "received (sockets (broadcastPhoto ex_stored1 ex_failing_client) 4) = [broadcast_message ex_stored1]"
    using b3 [of 3] by (simp add: ex_failing_client_def new_app_def ex_open_socket_def)
  from r1 d1 c1 a1 a3 r2 d2 i2 t2 b4 b5 b6 b7 show ?thesis by blast
qed

text \<open>
  The client registered right after a failing one: the splice moves it to the index the
  loop has just visited, so the loop never calls \<open>send\<close> on it.
\<close>

lemma failing_send_skips_next_client:
  "readyState (sockets ex_failing_client 3) = OPEN \<and> \<not> sendThrows (sockets ex_failing_client 3) \<and>
   received (sockets (broadcastPhoto ex_stored1 ex_failing_client) 3) = []"
  by (simp add: ex_failing_client_def broadcast_eval_defs)

text \<open>
  Numbers beyond \<open>2^53\<close>, for the record: the fewest digits that read back as the same
  double, written out up to 21 places and in exponent form from there on.
\<close>

lemmas number_eval = Number_toString_def double_text_def to_double_def bit_length.simps
  shortest_digits.simps decimal_nat.simps

lemma Number_toString_2_60: "Number_toString (2 ^ 60) = ''1152921504606847000''"
  by (simp add: number_eval)

lemma Number_toString_10_21: "Number_toString (10 ^ 21) = ''1e+21''"
  by (simp add: number_eval)

lemma Number_toString_2_70: "Number_toString (2 ^ 70) = ''1.1805916207174113e+21''"
  by (simp add: number_eval)

end
